theory Spec2Isabelle
  imports
    Main
    "HOL-Library.Char_ord"
    "HOL-Library.List_Lexorder"
    "HOL-Library.Product_Lexorder"
    "HOL-Library.Multiset"
    "HOL-Library.Monad_Syntax"
begin


section \<open>Exceptions\<close>

text \<open>
  The Python exceptions that the recurrence engine can let escape.  Every function of the
  source that can raise returns \<open>error + 'a\<close>, with \<open>Inl\<close> for the exception.
\<close>

datatype error = ValueError | OverflowError | OSError

section \<open>Python's \<open>datetime.date\<close>\<close>

text \<open>
  The standard library's proleptic Gregorian calendar, as \<open>datetime\<close> implements it:
  a date is a triple (year, month, day) with \<open>1 \<le> year \<le> 9999\<close>; \<open>toordinal\<close> counts
  days from 0001-01-01 = 1; adding a \<open>timedelta\<close> goes through the ordinal and raises
  \<open>OverflowError\<close> outside \<open>[1, 3652059]\<close>.
\<close>

record date =
  year :: int
  month :: int
  day :: int

definition MINYEAR :: int where "MINYEAR = 1"
definition MAXYEAR :: int where "MAXYEAR = 9999"
definition MAXORDINAL :: int where "MAXORDINAL = 3652059"

definition is_leap :: "int \<Rightarrow> bool" where
  "is_leap y = (y mod 4 = 0 \<and> (y mod 100 \<noteq> 0 \<or> y mod 400 = 0))"

definition days_before_year :: "int \<Rightarrow> int" where
  "days_before_year y = (let y1 = y - 1 in y1 * 365 + y1 div 4 - y1 div 100 + y1 div 400)"

definition DAYS_IN_MONTH :: "int \<Rightarrow> int" where
  "DAYS_IN_MONTH m =
     (if m = 1 then 31 else if m = 2 then 28 else if m = 3 then 31 else if m = 4 then 30
      else if m = 5 then 31 else if m = 6 then 30 else if m = 7 then 31 else if m = 8 then 31
      else if m = 9 then 30 else if m = 10 then 31 else if m = 11 then 30 else 31)"

definition DAYS_BEFORE_MONTH :: "int \<Rightarrow> int" where
  "DAYS_BEFORE_MONTH m =
     (if m = 1 then 0 else if m = 2 then 31 else if m = 3 then 59 else if m = 4 then 90
      else if m = 5 then 120 else if m = 6 then 151 else if m = 7 then 181
      else if m = 8 then 212 else if m = 9 then 243 else if m = 10 then 273
      else if m = 11 then 304 else 334)"

definition days_in_month :: "int \<Rightarrow> int \<Rightarrow> int" where
  "days_in_month y m = (if m = 2 \<and> is_leap y then 29 else DAYS_IN_MONTH m)"

definition days_before_month :: "int \<Rightarrow> int \<Rightarrow> int" where
  "days_before_month y m = DAYS_BEFORE_MONTH m + (if m > 2 \<and> is_leap y then 1 else 0)"

definition ymd2ord :: "int \<Rightarrow> int \<Rightarrow> int \<Rightarrow> int" where
  "ymd2ord y m d = days_before_year y + days_before_month y m + d"

definition ord2ymd :: "int \<Rightarrow> date" where
  "ord2ymd n0 =
     (let n = n0 - 1;
          n400 = n div 146097; n = n mod 146097;
          n100 = n div 36524; n = n mod 36524;
          n4 = n div 1461; n = n mod 1461;
          n1 = n div 365; n = n mod 365;
          y = n400 * 400 + 1 + n100 * 100 + n4 * 4 + n1
      in if n1 = 4 \<or> n100 = 4 then \<lparr>year = y - 1, month = 12, day = 31\<rparr>
         else
           let leapyear = (n1 = 3 \<and> (n4 \<noteq> 24 \<or> n100 = 3));
               m = (n + 50) div 32;
               preceding = DAYS_BEFORE_MONTH m + (if m > 2 \<and> leapyear then 1 else 0)
           in if preceding > n
              then let m' = m - 1;
                       preceding' = preceding - (DAYS_IN_MONTH m' + (if m' = 2 \<and> leapyear then 1 else 0))
                   in \<lparr>year = y, month = m', day = n - preceding' + 1\<rparr>
              else \<lparr>year = y, month = m, day = n - preceding + 1\<rparr>)"

text \<open>\<open>dt.date(y, m, d)\<close>: the constructor validates its arguments.\<close>

definition py_date :: "int \<Rightarrow> int \<Rightarrow> int \<Rightarrow> error + date" where
  "py_date y m d =
     (if MINYEAR \<le> y \<and> y \<le> MAXYEAR \<and> 1 \<le> m \<and> m \<le> 12 \<and> 1 \<le> d \<and> d \<le> days_in_month y m
      then Inr \<lparr>year = y, month = m, day = d\<rparr> else Inl ValueError)"

definition toordinal :: "date \<Rightarrow> int" where
  "toordinal dv = ymd2ord (year dv) (month dv) (day dv)"

text \<open>\<open>date + dt.timedelta(days=k)\<close> (and, with a negative \<open>k\<close>, the subtraction).\<close>

definition date_add_days :: "date \<Rightarrow> int \<Rightarrow> error + date" where
  "date_add_days dv k =
     (let ordinal = toordinal dv + k
      in if 0 < ordinal \<and> ordinal \<le> MAXORDINAL then Inr (ord2ymd ordinal) else Inl OverflowError)"

text \<open>\<open>date.weekday()\<close>: Monday is 0, Sunday is 6.\<close>

definition weekday :: "date \<Rightarrow> int" where
  "weekday dv = (toordinal dv + 6) mod 7"

section \<open>Python floats\<close>

text \<open>
  The program divides two integers with \<open>/\<close> in two places (\<open>ms / 1000\<close> and the percent
  label); the result is an IEEE 754 double.  A finite non-negative double is modelled by
  a pair \<open>(m, e)\<close> that stands for \<open>m * 2 ^ e\<close>, with \<open>m < 2 ^ 53\<close> after rounding (or
  \<open>m = 2 ^ 53\<close>, the next power of two) and \<open>e \<ge> -1074\<close>.

  \<open>round_half_even num den\<close> is the integer nearest to \<open>num / den\<close>, ties to even.
  \<open>float_exponent num den\<close> is the integer part of the binary logarithm of \<open>num / den\<close>.
  \<open>round_double num den\<close> is the double nearest to the rational \<open>num / den\<close>, ties to
  even, gradual underflow included; both \<open>int / int\<close> and the product of two doubles
  round the exact result this way.  \<open>double_overflows\<close> holds when the rounded value is
  \<open>2 ^ 1024\<close> or more: the integer division then raises \<open>OverflowError\<close>, and a float
  product is infinite.
\<close>

function bit_length :: "int \<Rightarrow> nat" where
  "bit_length n = (if n \<le> 0 then 0 else Suc (bit_length (n div 2)))"
  by pat_completeness auto
termination
  by (relation "measure nat") auto

definition round_half_even :: "int \<Rightarrow> int \<Rightarrow> int" where
  "round_half_even num den =
     (let q = num div den; r = num mod den
      in if 2 * r < den then q
         else if 2 * r > den then q + 1
         else if even q then q else q + 1)"

definition float_exponent :: "int \<Rightarrow> int \<Rightarrow> int" where
  "float_exponent num den =
     (let k = int (bit_length num) - int (bit_length den)
      in if (if 0 \<le> k then den * 2 ^ nat k \<le> num else den \<le> num * 2 ^ nat (- k)) then k
         else k - 1)"

type_synonym double = "int \<times> int"

definition round_double :: "int \<Rightarrow> int \<Rightarrow> double" where
  "round_double num den =
     (if num = 0 then (0, 0)
      else let e = max (float_exponent num den - 52) (- 1074)
           in (if 0 \<le> e then round_half_even num (den * 2 ^ nat e)
               else round_half_even (num * 2 ^ nat (- e)) den, e))"

definition double_overflows :: "double \<Rightarrow> bool" where
  "double_overflows x = (case x of (m, e) \<Rightarrow> 971 < e \<or> (e = 971 \<and> 2 ^ 53 \<le> m))"

text \<open>\<open>a / b\<close> for integers \<open>a \<ge> 0\<close> and \<open>b > 0\<close>.\<close>

definition true_divide :: "int \<Rightarrow> int \<Rightarrow> error + double" where
  "true_divide a b =
     (let x = round_double a b in if double_overflows x then Inl OverflowError else Inr x)"

section \<open>Local time\<close>

text \<open>
  \<open>local_tz()\<close> is the fixed-offset \<open>timezone\<close> object that
  \<open>datetime.now().astimezone().tzinfo\<close> yields; the model takes its UTC offset in seconds
  as the parameter \<open>tz\<close> of every function that reads it.  The ordinal of 1970-01-01 is
  719163.

  \<open>ms_to_local\<close> goes through \<open>fromtimestamp(ms / 1000, tz=utc)\<close>, which raises when the
  UTC instant is outside the years 1..9999, and then \<open>astimezone\<close>, which raises
  \<open>OverflowError\<close> when the shifted instant is.  The callers read only the date of the
  result (\<open>.date()\<close>, \<open>.month\<close>); the model returns it with the millisecond of the local
  day.

  Which exception \<open>fromtimestamp\<close> raises depends on how far out of range the float
  \<open>ms / 1000\<close> is, here as CPython does on a platform with a 64-bit \<open>time_t\<close> and a 32-bit
  \<open>tm_year\<close>: \<open>OverflowError\<close> when the division overflows or the seconds do not fit
  \<open>time_t\<close>; \<open>OSError\<close> when \<open>gmtime\<close> cannot represent the year (the seconds are before
  the year -2147481748 or from the year 2147485548 on); \<open>ValueError\<close> otherwise.  Beyond
  \<open>2 ^ 53\<close> seconds the float is a whole number of seconds.
\<close>

definition EPOCH_ORDINAL :: int where "EPOCH_ORDINAL = 719163"

definition GMTIME_MIN :: int where "GMTIME_MIN = - 67768040609740800"
definition GMTIME_MAX :: int where "GMTIME_MAX = 67768036191676800"

definition fromtimestamp_error :: "int \<Rightarrow> error" where
  "fromtimestamp_error ms =
     (case true_divide (abs ms) 1000 of
        Inl e \<Rightarrow> e
      | Inr (m, e) \<Rightarrow>
          if e < 0 then ValueError
          else let timet = (if ms < 0 then - (m * 2 ^ nat e) else m * 2 ^ nat e)
               in if timet < - (2 ^ 63) \<or> 2 ^ 63 \<le> timet then OverflowError
                  else if timet < GMTIME_MIN \<or> GMTIME_MAX \<le> timet then OSError
                  else ValueError)"

definition ms_to_local :: "int \<Rightarrow> int \<Rightarrow> error + (date \<times> int)" where
  "ms_to_local tz ms =
     (let utc_ordinal = EPOCH_ORDINAL + (ms div 1000) div 86400;
          local_ms = ms + tz * 1000;
          local_ordinal = EPOCH_ORDINAL + (local_ms div 1000) div 86400
      in if \<not> (0 < utc_ordinal \<and> utc_ordinal \<le> MAXORDINAL) then Inl (fromtimestamp_error ms)
         else if \<not> (0 < local_ordinal \<and> local_ordinal \<le> MAXORDINAL) then Inl OverflowError
         else Inr (ord2ymd local_ordinal, local_ms mod 86400000))"

text \<open>
  \<open>local_to_ms(dt.datetime(y, m, d, hour, minute, tzinfo=local_tz()))\<close>: the constructor
  raises \<open>ValueError\<close> for an hour outside 0..23 or a minute outside 0..59; the
  timestamp of an aware datetime is exact.
\<close>

definition local_datetime_to_ms :: "int \<Rightarrow> date \<Rightarrow> int \<Rightarrow> int \<Rightarrow> error + int" where
  "local_datetime_to_ms tz dv hour minute =
     (if 0 \<le> hour \<and> hour \<le> 23 \<and> 0 \<le> minute \<and> minute \<le> 59
      then Inr (((toordinal dv - EPOCH_ORDINAL) * 86400 + hour * 3600 + minute * 60 - tz) * 1000)
      else Inl ValueError)"

section \<open>Calendar helpers of the program\<close>

definition java_day_of_week :: "date \<Rightarrow> int" where
  "java_day_of_week date_value = ((weekday date_value + 1) mod 7) + 1"

definition month_max_day :: "int \<Rightarrow> int \<Rightarrow> error + int" where
  "month_max_day y m =
     (case (if m = 12 then py_date (y + 1) 1 1 else py_date y (m + 1) 1) of
        Inl e \<Rightarrow> Inl e
      | Inr next_month \<Rightarrow>
          (case date_add_days next_month (- 1) of
             Inl e \<Rightarrow> Inl e
           | Inr last_day \<Rightarrow> Inr (day last_day)))"

text \<open>The loop of \<open>nth_weekday_day_of_month\<close> that collects the matching days.\<close>

fun nth_weekday_matches :: "int \<Rightarrow> int \<Rightarrow> int \<Rightarrow> int list \<Rightarrow> error + int list" where
  "nth_weekday_matches y m target_java_dow [] = Inr []"
| "nth_weekday_matches y m target_java_dow (d # ds) =
     (case py_date y m d of
        Inl e \<Rightarrow> Inl e
      | Inr dv \<Rightarrow>
          (case nth_weekday_matches y m target_java_dow ds of
             Inl e \<Rightarrow> Inl e
           | Inr rest \<Rightarrow> Inr (if java_day_of_week dv = target_java_dow then d # rest else rest)))"

definition nth_weekday_day_of_month :: "int \<Rightarrow> int \<Rightarrow> int \<Rightarrow> int \<Rightarrow> error + int" where
  "nth_weekday_day_of_month y m target_java_dow nth_week =
     (case month_max_day y m of
        Inl e \<Rightarrow> Inl e
      | Inr max_day \<Rightarrow>
          (case nth_weekday_matches y m target_java_dow [1..max_day] of
             Inl e \<Rightarrow> Inl e
           | Inr matches \<Rightarrow>
               Inr (if matches = [] then 1
                    else if nth_week \<ge> 5 then last matches
                    else let index = max 0 (nth_week - 1)
                         in if index < int (length matches) then matches ! nat index
                            else last matches)))"

section \<open>The reminder model\<close>

definition NAG_MODE_ONE_TIME :: string where "NAG_MODE_ONE_TIME = ''ONE_TIME''"
definition NAG_MODE_MONTHLY :: string where "NAG_MODE_MONTHLY = ''MONTHLY''"

definition PATTERN_DAY_OF_MONTH :: string where "PATTERN_DAY_OF_MONTH = ''DAY_OF_MONTH''"
definition PATTERN_DAY_OF_WEEK :: string where "PATTERN_DAY_OF_WEEK = ''DAY_OF_WEEK''"
definition PATTERN_NTH_WEEKDAY :: string where "PATTERN_NTH_WEEKDAY = ''NTH_WEEKDAY_OF_MONTH''"
definition PATTERN_END_OF_MONTH :: string where "PATTERN_END_OF_MONTH = ''END_OF_MONTH''"
definition PATTERN_QUARTERLY :: string where "PATTERN_QUARTERLY = ''QUARTERLY''"
definition PATTERN_ANNUAL :: string where "PATTERN_ANNUAL = ''ANNUAL''"

definition PATTERN_OPTIONS :: "string list" where
  "PATTERN_OPTIONS =
     [PATTERN_DAY_OF_MONTH, PATTERN_DAY_OF_WEEK, PATTERN_NTH_WEEKDAY,
      PATTERN_END_OF_MONTH, PATTERN_QUARTERLY, PATTERN_ANNUAL]"

definition JAVA_MONDAY :: int where "JAVA_MONDAY = 2"
definition PRE_DUE_COLOR_WINDOW_DAYS :: int where "PRE_DUE_COLOR_WINDOW_DAYS = 14"

record due_window =
  start_ms :: int
  due_ms :: int
  source_due_ms :: int

text \<open>The dataclass \<open>Nag\<close>, field by field; \<open>Optional[...]\<close> is \<open>option\<close>.\<close>

record nag =
  work_name :: string
  nag_text :: string
  bucket :: string
  project_name :: "string option"
  lateness_days :: int
  mode :: string
  repeat_minutes :: int
  continue_minutes :: "int option"
  notifications_enabled :: bool
  weight :: int
  one_time_epoch_ms :: "int option"
  monthly_day :: "int option"
  monthly_hour :: "int option"
  monthly_minute :: "int option"
  created_at_epoch_ms :: int
  skipped_monthly_due_epoch_ms :: "int list"
  icon_glyph :: "string option"
  icon_png_base64 :: "string option"
  image_url :: "string option"
  recurring_pattern_type :: string
  recurring_day_of_week :: "int option"
  recurring_nth_week :: "int option"
  recurring_month_of_year :: "int option"
  recurring_quarter_anchor_month :: "int option"
  recurring_visible_days_before_due :: "int option"
  pushed_offset_ms :: int
  push_count :: int
  pushed_total_ms :: int

text \<open>
  Python's \<open>x or y\<close> on an \<open>Optional[int]\<close>: \<open>None\<close> and \<open>0\<close> are falsy.
  On a string, the empty string is.
\<close>

definition or_int :: "int option \<Rightarrow> int \<Rightarrow> int" where
  "or_int x y = (case x of None \<Rightarrow> y | Some v \<Rightarrow> if v = 0 then y else v)"

definition or_str :: "string \<Rightarrow> string \<Rightarrow> string" where
  "or_str x y = (if x = [] then y else x)"

definition is_monthly_due_skipped :: "nag \<Rightarrow> int \<Rightarrow> bool" where
  "is_monthly_due_skipped n due \<longleftrightarrow> due \<in> set (skipped_monthly_due_epoch_ms n)"

definition apply_push_offset :: "nag \<Rightarrow> int \<Rightarrow> int" where
  "apply_push_offset n base_due_ms = base_due_ms + max 0 (pushed_offset_ms n)"

section \<open>Recurrence resolution\<close>

definition is_recurring_date_match :: "int \<Rightarrow> nag \<Rightarrow> date \<Rightarrow> error + bool" where
  "is_recurring_date_match tz n day_value =
     (if mode n \<noteq> NAG_MODE_MONTHLY then Inr False
      else
        let day_of_month = day day_value;
            java_dow = java_day_of_week day_value
        in case month_max_day (year day_value) (month day_value) of
             Inl e \<Rightarrow> Inl e
           | Inr max_day \<Rightarrow>
               let pattern = or_str (recurring_pattern_type n) PATTERN_DAY_OF_MONTH
               in if pattern = PATTERN_DAY_OF_MONTH then
                    Inr (day_of_month = min (or_int (monthly_day n) day_of_month) max_day)
                  else if pattern = PATTERN_DAY_OF_WEEK then
                    Inr (java_dow = or_int (recurring_day_of_week n) JAVA_MONDAY)
                  else if pattern = PATTERN_NTH_WEEKDAY then
                    (case nth_weekday_day_of_month (year day_value) (month day_value)
                            (or_int (recurring_day_of_week n) JAVA_MONDAY)
                            (or_int (recurring_nth_week n) 1) of
                       Inl e \<Rightarrow> Inl e
                     | Inr target_day \<Rightarrow> Inr (day_of_month = target_day))
                  else if pattern = PATTERN_END_OF_MONTH then
                    Inr (day_of_month = max_day)
                  else if pattern = PATTERN_QUARTERLY then
                    (case ms_to_local tz (created_at_epoch_ms n) of
                       Inl e \<Rightarrow> Inl e
                     | Inr created \<Rightarrow>
                         let created_month = month (fst created);
                             anchor_month =
                               max 1 (min 12 (or_int (recurring_quarter_anchor_month n) created_month));
                             month_delta = ((month day_value - anchor_month) mod 12 + 12) mod 12;
                             in_cycle = (month_delta mod 3 = 0);
                             target_day = min (or_int (monthly_day n) day_of_month) max_day
                         in Inr (in_cycle \<and> day_of_month = target_day))
                  else if pattern = PATTERN_ANNUAL then
                    (let target_month =
                           max 1 (min 12 (or_int (recurring_month_of_year n) (month day_value)));
                         target_day = min (or_int (monthly_day n) day_of_month) max_day
                     in Inr (month day_value = target_month \<and> day_of_month = target_day))
                  else Inr False)"

text \<open>
  The body of the \<open>for day_offset in range(0, 366 * 6 + 1)\<close> loop of
  \<open>resolve_next_recurring_base_due_ms\<close>, over the offsets still to visit.
\<close>

fun next_scan :: "int \<Rightarrow> nag \<Rightarrow> int \<Rightarrow> int \<Rightarrow> int \<Rightarrow> date \<Rightarrow> int list \<Rightarrow> error + int option" where
  "next_scan tz n reference_ms hour minute probe_date [] = Inr None"
| "next_scan tz n reference_ms hour minute probe_date (day_offset # rest) =
     (case date_add_days probe_date day_offset of
        Inl e \<Rightarrow> Inl e
      | Inr current_date \<Rightarrow>
          (case is_recurring_date_match tz n current_date of
             Inl e \<Rightarrow> Inl e
           | Inr matched \<Rightarrow>
               if \<not> matched then next_scan tz n reference_ms hour minute probe_date rest
               else
                 (case local_datetime_to_ms tz current_date hour minute of
                    Inl e \<Rightarrow> Inl e
                  | Inr due \<Rightarrow>
                      if due < reference_ms
                        then next_scan tz n reference_ms hour minute probe_date rest
                      else if is_monthly_due_skipped n due
                        then next_scan tz n reference_ms hour minute probe_date rest
                      else Inr (Some due))))"

definition resolve_next_recurring_base_due_ms :: "int \<Rightarrow> nag \<Rightarrow> int \<Rightarrow> error + int option" where
  "resolve_next_recurring_base_due_ms tz n reference_ms =
     (if mode n \<noteq> NAG_MODE_MONTHLY then Inr None
      else case (monthly_hour n, monthly_minute n) of
             (Some hour, Some minute) \<Rightarrow>
               (case ms_to_local tz reference_ms of
                  Inl e \<Rightarrow> Inl e
                | Inr start \<Rightarrow>
                    next_scan tz n reference_ms hour minute (fst start) [0 .. 366 * 6 + 1 - 1])
           | _ \<Rightarrow> Inr None)"

text \<open>The backward loop of \<open>resolve_previous_recurring_base_due_ms\<close>.\<close>

fun previous_scan :: "int \<Rightarrow> nag \<Rightarrow> int \<Rightarrow> int \<Rightarrow> int \<Rightarrow> date \<Rightarrow> int list \<Rightarrow> error + int option" where
  "previous_scan tz n reference_ms hour minute probe_date [] = Inr None"
| "previous_scan tz n reference_ms hour minute probe_date (day_offset # rest) =
     (case date_add_days probe_date (- day_offset) of
        Inl e \<Rightarrow> Inl e
      | Inr current_date \<Rightarrow>
          (case is_recurring_date_match tz n current_date of
             Inl e \<Rightarrow> Inl e
           | Inr matched \<Rightarrow>
               if \<not> matched then previous_scan tz n reference_ms hour minute probe_date rest
               else
                 (case local_datetime_to_ms tz current_date hour minute of
                    Inl e \<Rightarrow> Inl e
                  | Inr due \<Rightarrow>
                      if due > reference_ms
                        then previous_scan tz n reference_ms hour minute probe_date rest
                      else Inr (Some due))))"

definition resolve_previous_recurring_base_due_ms :: "int \<Rightarrow> nag \<Rightarrow> int \<Rightarrow> error + int option" where
  "resolve_previous_recurring_base_due_ms tz n reference_ms =
     (if mode n \<noteq> NAG_MODE_MONTHLY then Inr None
      else case (monthly_hour n, monthly_minute n) of
             (Some hour, Some minute) \<Rightarrow>
               (case ms_to_local tz reference_ms of
                  Inl e \<Rightarrow> Inl e
                | Inr start \<Rightarrow>
                    previous_scan tz n reference_ms hour minute (fst start) [0 .. 366 * 6 + 1 - 1])
           | _ \<Rightarrow> Inr None)"

definition resolve_current_display_monthly_due_window :: "int \<Rightarrow> nag \<Rightarrow> int \<Rightarrow> error + due_window option" where
  "resolve_current_display_monthly_due_window tz n reference_ms =
     (case resolve_next_recurring_base_due_ms tz n reference_ms of
        Inl e \<Rightarrow> Inl e
      | Inr None \<Rightarrow> Inr None
      | Inr (Some base_due) \<Rightarrow>
          (case resolve_previous_recurring_base_due_ms tz n (base_due - 1) of
             Inl e \<Rightarrow> Inl e
           | Inr previous \<Rightarrow>
               let previous_base = or_int previous (created_at_epoch_ms n)
               in Inr (Some \<lparr>start_ms = max previous_base (created_at_epoch_ms n),
                             due_ms = apply_push_offset n base_due,
                             source_due_ms = base_due\<rparr>)))"

text \<open>
  The \<open>while guard < 600\<close> loop of \<open>resolve_monthly_due_windows_in_range\<close>; its state
  is the list of windows, the search cursor and the guard.
\<close>

function range_loop :: "int \<Rightarrow> nag \<Rightarrow> int \<Rightarrow> due_window list \<Rightarrow> int \<Rightarrow> int \<Rightarrow> error + due_window list" where
  "range_loop tz n range_end_ms windows search_cursor guard =
     (if guard < 600 then
        (case resolve_next_recurring_base_due_ms tz n search_cursor of
           Inl e \<Rightarrow> Inl e
         | Inr None \<Rightarrow> Inr windows
         | Inr (Some next_base_due) \<Rightarrow>
             let due = apply_push_offset n next_base_due
             in if due > range_end_ms then Inr windows
                else
                  (case resolve_previous_recurring_base_due_ms tz n (next_base_due - 1) of
                     Inl e \<Rightarrow> Inl e
                   | Inr previous \<Rightarrow>
                       let previous_base_due = or_int previous (created_at_epoch_ms n)
                       in range_loop tz n range_end_ms
                            (windows @ [\<lparr>start_ms = max previous_base_due (created_at_epoch_ms n),
                                         due_ms = due,
                                         source_due_ms = next_base_due\<rparr>])
                            (next_base_due + 60000) (guard + 1)))
      else Inr windows)"
  by pat_completeness auto
termination
  by (relation "measure (\<lambda>(tz, n, range_end_ms, windows, search_cursor, guard). nat (600 - guard))") auto

definition resolve_monthly_due_windows_in_range :: "int \<Rightarrow> nag \<Rightarrow> int \<Rightarrow> int \<Rightarrow> error + due_window list" where
  "resolve_monthly_due_windows_in_range tz n range_start_ms range_end_ms =
     (if range_end_ms < range_start_ms then Inr []
      else range_loop tz n range_end_ms [] range_start_ms 0)"

definition resolve_due_window :: "int \<Rightarrow> nag \<Rightarrow> int \<Rightarrow> error + due_window option" where
  "resolve_due_window tz n now_ms_value =
     (if mode n = NAG_MODE_ONE_TIME then
        (case one_time_epoch_ms n of
           None \<Rightarrow> Inr None
         | Some base_due \<Rightarrow>
             Inr (Some \<lparr>start_ms = min (created_at_epoch_ms n) base_due,
                        due_ms = apply_push_offset n base_due,
                        source_due_ms = base_due\<rparr>))
      else resolve_current_display_monthly_due_window tz n now_ms_value)"

definition resolve_next_due_ms :: "int \<Rightarrow> nag \<Rightarrow> int \<Rightarrow> error + int option" where
  "resolve_next_due_ms tz n reference_ms =
     (if mode n = NAG_MODE_ONE_TIME then
        (case one_time_epoch_ms n of
           None \<Rightarrow> Inr None
         | Some base_due \<Rightarrow> Inr (Some (apply_push_offset n base_due)))
      else case resolve_next_recurring_base_due_ms tz n reference_ms of
             Inl e \<Rightarrow> Inl e
           | Inr None \<Rightarrow> Inr None
           | Inr (Some base_due) \<Rightarrow> Inr (Some (apply_push_offset n base_due)))"

section \<open>Example reminders\<close>

text \<open>
  A recurring reminder due every day at 09:00 local time (\<open>DAY_OF_MONTH\<close> with no
  configured day matches every date), created at the epoch.  The theorems below are
  instantiated on it, in the time zone UTC.
\<close>

definition daily_nag :: nag where
  "daily_nag =
     \<lparr>work_name = ''water'', nag_text = ''Water the plants'', bucket = ''Work'',
      project_name = None, lateness_days = 7, mode = ''MONTHLY'', repeat_minutes = 60,
      continue_minutes = None, notifications_enabled = True, weight = 50,
      one_time_epoch_ms = None, monthly_day = None, monthly_hour = Some 9,
      monthly_minute = Some 0, created_at_epoch_ms = 0, skipped_monthly_due_epoch_ms = [],
      icon_glyph = None, icon_png_base64 = None, image_url = None,
      recurring_pattern_type = ''DAY_OF_MONTH'', recurring_day_of_week = None,
      recurring_nth_week = None, recurring_month_of_year = None,
      recurring_quarter_anchor_month = None, recurring_visible_days_before_due = None,
      pushed_offset_ms = 0, push_count = 0, pushed_total_ms = 0\<rparr>"


section \<open>User actions on a reminder\<close>

text \<open>
  \<open>VIEW_ONLY_MODE\<close> is a module-level switch (shipped as \<open>True\<close>): when it is set,
  \<open>_reject_write_when_view_only\<close> makes every write action return at once.  The model
  takes the switch as the parameter \<open>view_only\<close>; \<open>VIEW_ONLY_MODE\<close> is the value the
  module assigns.
\<close>

definition VIEW_ONLY_MODE :: bool where
  "VIEW_ONLY_MODE = True"

text \<open>
  \<open>push_selected\<close>: the reminder that the action builds from the stored one and the parsed
  duration (\<open>_parse_duration_to_ms\<close> yields \<open>None\<close> or an integer; a missing or
  non-positive duration is rejected).  The dialogs and the write to the event log are
  the shell's.
\<close>

definition push_selected :: "bool \<Rightarrow> nag \<Rightarrow> int option \<Rightarrow> nag option" where
  "push_selected view_only n push_ms =
     (if view_only then None
      else case push_ms of
             None \<Rightarrow> None
           | Some p \<Rightarrow>
               if p \<le> 0 then None
               else Some (n\<lparr>pushed_offset_ms := max 0 (pushed_offset_ms n + p),
                            push_count := max 0 (push_count n + 1),
                            pushed_total_ms := max 0 (pushed_total_ms n + p)\<rparr>))"

text \<open>
  \<open>complete_selected_occurrence\<close>: the reminder built from the stored one and the due
  window of the selected entry.  \<open>xs[-200:]\<close> keeps the last 200 elements.
\<close>

definition complete_selected_occurrence :: "bool \<Rightarrow> nag \<Rightarrow> due_window option \<Rightarrow> nag option" where
  "complete_selected_occurrence view_only n entry_due_window =
     (if view_only then None
      else if mode n \<noteq> NAG_MODE_MONTHLY then None
      else case entry_due_window of
             None \<Rightarrow> None
           | Some w \<Rightarrow>
               let source_due = source_due_ms w
               in if source_due \<in> set (skipped_monthly_due_epoch_ms n) then None
                  else
                    let merged = sorted_list_of_set (set (skipped_monthly_due_epoch_ms n @ [source_due]))
                    in Some (n\<lparr>skipped_monthly_due_epoch_ms := drop (length merged - 200) merged\<rparr>))"

section \<open>Labels\<close>

text \<open>Python's \<open>str\<close> of an integer, used by the f-strings.\<close>

definition digit_char :: "nat \<Rightarrow> char" where
  "digit_char k = ''0123456789'' ! k"

function str_nat :: "nat \<Rightarrow> string" where
  "str_nat k = (if k < 10 then [digit_char k] else str_nat (k div 10) @ [digit_char (k mod 10)])"
  by pat_completeness auto
termination
  by (relation "measure id") auto

definition str_int :: "int \<Rightarrow> string" where
  "str_int i = (if i < 0 then CHR ''-'' # str_nat (nat (- i)) else str_nat (nat i))"

definition overdue_window_ms :: "int \<Rightarrow> int" where
  "overdue_window_ms lateness = max 1 lateness * 24 * 60 * 60 * 1000"

text \<open>
  \<open>int(round((a / b) * 100.0))\<close> for integers \<open>a \<ge> 0\<close> and \<open>b > 0\<close>: the quotient is
  rounded to a double, its product with 100 is rounded to a double again, and \<open>round\<close>
  takes the nearest integer, ties to even.  \<open>round\<close> raises \<open>OverflowError\<close> on an
  infinite product.
\<close>

definition times_100 :: "double \<Rightarrow> double" where
  "times_100 x =
     (case x of (m, e) \<Rightarrow>
        if 0 \<le> e then round_double (100 * m * 2 ^ nat e) 1
        else round_double (100 * m) (2 ^ nat (- e)))"

definition py_round :: "double \<Rightarrow> error + int" where
  "py_round x =
     (if double_overflows x then Inl OverflowError
      else case x of (m, e) \<Rightarrow>
        Inr (if 0 \<le> e then m * 2 ^ nat e else round_half_even m (2 ^ nat (- e))))"

definition round_percent :: "int \<Rightarrow> int \<Rightarrow> error + int" where
  "round_percent a b =
     (case true_divide a b of
        Inl e \<Rightarrow> Inl e
      | Inr q \<Rightarrow> py_round (times_100 q))"

text \<open>The local variable \<open>percent\<close> of \<open>progress_percent_label\<close>, and the label.\<close>

definition progress_percent :: "int \<Rightarrow> int \<Rightarrow> int \<Rightarrow> int \<Rightarrow> error + int" where
  "progress_percent now_ms_value start due lateness =
     (if now_ms_value \<le> due then
        let denominator = max 1 (due - start);
            elapsed = max 0 (min denominator (now_ms_value - start))
        in round_percent elapsed denominator
      else
        let window = max 1 (overdue_window_ms lateness);
            past_due = max 0 (now_ms_value - due)
        in round_percent past_due window)"

definition progress_percent_label :: "int \<Rightarrow> int \<Rightarrow> int \<Rightarrow> int \<Rightarrow> error + string" where
  "progress_percent_label now_ms_value start due lateness =
     (case progress_percent now_ms_value start due lateness of
        Inl e \<Rightarrow> Inl e
      | Inr percent \<Rightarrow> Inr (str_int percent @ ''%''))"

section \<open>Sorting the visible entries\<close>

record nag_list_entry =
  nag :: nag
  due_window :: "due_window option"
  key :: string

definition SORT_ENTERED :: string where "SORT_ENTERED = ''Entered''"
definition SORT_WEIGHT :: string where "SORT_WEIGHT = ''Weight''"
definition SORT_DUE :: string where "SORT_DUE = ''Due''"
definition SORT_SMART :: string where "SORT_SMART = ''Smart''"

definition max_long :: int where "max_long = 2 ^ 63 - 1"

definition smart_status_rank :: "int \<Rightarrow> int \<Rightarrow> int" where
  "smart_status_rank due now_ms_value =
     (if due = 2 ^ 63 - 1 then 3
      else if now_ms_value > due then 0
      else if due - now_ms_value \<le> PRE_DUE_COLOR_WINDOW_DAYS * 24 * 60 * 60 * 1000 then 1
      else 2)"

text \<open>The local function \<open>entry_due_ms\<close> of \<open>sort_entries\<close>.\<close>

definition entry_due_ms :: "int \<Rightarrow> int \<Rightarrow> nag_list_entry \<Rightarrow> error + int" where
  "entry_due_ms tz now_ms_value entry =
     (case due_window entry of
        Some w \<Rightarrow> Inr (due_ms w)
      | None \<Rightarrow>
          (case resolve_next_due_ms tz (nag entry) now_ms_value of
             Inl e \<Rightarrow> Inl e
           | Inr None \<Rightarrow> Inr max_long
           | Inr (Some due) \<Rightarrow> Inr due))"

text \<open>
  The sort keys are Python tuples of integers, compared lexicographically; the model
  writes them as lists under the lexicographic order.
\<close>

definition sort_key_of :: "int \<Rightarrow> string \<Rightarrow> int \<Rightarrow> nag_list_entry \<Rightarrow> error + int list" where
  "sort_key_of tz sort_mode now_ms_value e =
     (case entry_due_ms tz now_ms_value e of
        Inl err \<Rightarrow> Inl err
      | Inr due \<Rightarrow>
          Inr (if sort_mode = SORT_WEIGHT then [- weight (nag e), due, created_at_epoch_ms (nag e)]
               else if sort_mode = SORT_DUE then [due, - weight (nag e), created_at_epoch_ms (nag e)]
               else if sort_mode = SORT_SMART then
                 [smart_status_rank due now_ms_value, - weight (nag e), due, created_at_epoch_ms (nag e)]
               else [created_at_epoch_ms (nag e), due]))"

text \<open>
  \<open>sorted(entries, key=...)\<close> computes the key of every entry first, in order (the first
  exception escapes), and then sorts stably on the keys.
\<close>

fun sort_keys :: "(nag_list_entry \<Rightarrow> error + int list) \<Rightarrow> nag_list_entry list \<Rightarrow> error + int list list" where
  "sort_keys f [] = Inr []"
| "sort_keys f (e # es) =
     (case f e of
        Inl err \<Rightarrow> Inl err
      | Inr k \<Rightarrow> (case sort_keys f es of Inl err \<Rightarrow> Inl err | Inr ks \<Rightarrow> Inr (k # ks)))"

definition sort_entries :: "int \<Rightarrow> nag_list_entry list \<Rightarrow> string \<Rightarrow> int \<Rightarrow> error + nag_list_entry list" where
  "sort_entries tz entries sort_mode now_ms_value =
     (case sort_keys (sort_key_of tz sort_mode now_ms_value) entries of
        Inl err \<Rightarrow> Inl err
      | Inr ks \<Rightarrow> Inr (map snd (sort_key fst (zip ks entries))))"


section \<open>The Smart order as the specification states it\<close>

text \<open>
  Stated from the specification's words, to be compared with \<open>sort_entries\<close>: an entry
  precedes another under the Smart sort when it comes first by status rank, then by
  descending weight, then by ascending due instant, then by ascending creation time.
\<close>

definition smart_precedes :: "int \<Rightarrow> int \<Rightarrow> nag_list_entry \<Rightarrow> nag_list_entry \<Rightarrow> bool" where
  "smart_precedes tz now_ms_value a b =
     (case (entry_due_ms tz now_ms_value a, entry_due_ms tz now_ms_value b) of
        (Inr due_a, Inr due_b) \<Rightarrow>
          (let rank_a = smart_status_rank due_a now_ms_value;
               rank_b = smart_status_rank due_b now_ms_value
           in rank_a < rank_b
              \<or> (rank_a = rank_b
                  \<and> (weight (nag a) > weight (nag b)
                      \<or> (weight (nag a) = weight (nag b)
                          \<and> (due_a < due_b
                              \<or> (due_a = due_b
                                  \<and> created_at_epoch_ms (nag a) \<le> created_at_epoch_ms (nag b)))))))
      | _ \<Rightarrow> False)"

text \<open>Two visible entries: one due at 100 ms with weight 10, one due at 5 ms with weight 20.\<close>

definition entry_a :: nag_list_entry where
  "entry_a = \<lparr>nag = daily_nag\<lparr>work_name := ''a'', weight := 10\<rparr>,
               due_window = Some \<lparr>start_ms = 0, due_ms = 100, source_due_ms = 100\<rparr>,
               key = ''a_100''\<rparr>"

definition entry_b :: nag_list_entry where
  "entry_b = \<lparr>nag = daily_nag\<lparr>work_name := ''b'', weight := 20\<rparr>,
               due_window = Some \<lparr>start_ms = 0, due_ms = 5, source_due_ms = 5\<rparr>,
               key = ''b_5''\<rparr>"


section \<open>The Nth weekday of a month, as the specification words it\<close>

text \<open>
  These three definitions are not translated from the code: they state, after the
  specification, what it is for a day to be the Nth occurrence of a weekday in its
  month, and are compared below with \<open>nth_weekday_day_of_month\<close>.

  \<open>occurrence_index y m d\<close> counts the days of the month up to and including \<open>d\<close> that
  fall on the weekday of \<open>d\<close>: day \<open>d\<close> is the \<open>occurrence_index\<close>-th occurrence of its
  weekday.  \<open>occurrence_count y m w\<close> is the number of days of the month that fall on
  weekday \<open>w\<close>.  \<open>nth_weekday_spec y m w k d\<close>: day \<open>d\<close> falls on \<open>w\<close> and is its \<open>k\<close>-th
  occurrence, or its last one when \<open>k \<ge> 5\<close> or the month has fewer than \<open>k\<close>.
\<close>

definition occurrence_index :: "int \<Rightarrow> int \<Rightarrow> int \<Rightarrow> int" where
  "occurrence_index y m d =
     int (length (filter (\<lambda>d'. java_day_of_week \<lparr>year = y, month = m, day = d'\<rparr>
                               = java_day_of_week \<lparr>year = y, month = m, day = d\<rparr>) [1..d]))"

definition occurrence_count :: "int \<Rightarrow> int \<Rightarrow> int \<Rightarrow> int" where
  "occurrence_count y m w =
     int (length (filter (\<lambda>d'. java_day_of_week \<lparr>year = y, month = m, day = d'\<rparr> = w)
                    [1..days_in_month y m]))"

definition nth_weekday_spec :: "int \<Rightarrow> int \<Rightarrow> int \<Rightarrow> int \<Rightarrow> int \<Rightarrow> bool" where
  "nth_weekday_spec y m w k d \<longleftrightarrow>
     java_day_of_week \<lparr>year = y, month = m, day = d\<rparr> = w
     \<and> occurrence_index y m d
         = (if k \<ge> 5 \<or> occurrence_count y m w < k then occurrence_count y m w else k)"


section \<open>Event payloads\<close>

text \<open>
  A payload is a JSON object as \<open>json.loads\<close> and the HTTP client deliver it.  JSON
  numbers with a fraction or an exponent (Python floats) are outside the model.
\<close>

datatype json = JNull | JBool bool | JInt int | JStr string | JList "json list"
  | JDict "(string \<times> json) list"

type_synonym py_dict = "(string \<times> json) list"

text \<open>
  What the model takes from the Python library and from the presentational helpers of
  the program as parameters: \<open>str\<close> of a list or a dict, \<open>json.loads\<close>, and the three
  icon normalisers (they depend on Unicode classes and on base64 decoding, and no claim
  reads their results).
\<close>

record pylib =
  py_repr :: "json \<Rightarrow> string"
  json_loads :: "string \<Rightarrow> json option"
  normalize_icon_glyph :: "json \<Rightarrow> string option"
  normalize_image_url :: "json \<Rightarrow> string option"
  normalize_icon_png_base64 :: "json \<Rightarrow> string option"

definition ALL_BUCKET :: string where "ALL_BUCKET = ''All''"
definition PROJECT_BUCKET :: string where "PROJECT_BUCKET = ''Project''"
definition DEFAULT_PROJECT_NAME :: string where "DEFAULT_PROJECT_NAME = ''General''"
definition DEFAULT_BUCKETS :: "string list" where
  "DEFAULT_BUCKETS = [''Work'', ''Personal'', ''Weekend'', ''Holiday'', PROJECT_BUCKET]"

subsection \<open>Python strings and conversions\<close>

text \<open>
  A character is a code point below 256.  On these, \<open>str.strip\<close> removes the code
  points 9..13, 28..32, 133 and 160 (those for which \<open>str.isspace\<close> holds), and
  \<open>str.lower\<close> maps 65..90 and 192..222 except 215 to the code point 32 above.
\<close>

definition is_space :: "char \<Rightarrow> bool" where
  "is_space c =
     (let k = (of_char c :: nat)
      in (9 \<le> k \<and> k \<le> 13) \<or> (28 \<le> k \<and> k \<le> 32) \<or> k = 133 \<or> k = 160)"

definition strip :: "string \<Rightarrow> string" where
  "strip s = rev (dropWhile is_space (rev (dropWhile is_space s)))"

definition lower_char :: "char \<Rightarrow> char" where
  "lower_char c =
     (let k = (of_char c :: nat)
      in if (65 \<le> k \<and> k \<le> 90) \<or> (192 \<le> k \<and> k \<le> 222 \<and> k \<noteq> 215) then char_of (k + 32)
         else c)"

definition lower :: "string \<Rightarrow> string" where
  "lower s = map lower_char s"

definition py_str :: "pylib \<Rightarrow> json \<Rightarrow> string" where
  "py_str lib v =
     (case v of
        JStr s \<Rightarrow> s
      | JNull \<Rightarrow> ''None''
      | JBool b \<Rightarrow> (if b then ''True'' else ''False'')
      | JInt i \<Rightarrow> str_int i
      | _ \<Rightarrow> py_repr lib v)"

definition py_bool :: "json \<Rightarrow> bool" where
  "py_bool v =
     (case v of
        JNull \<Rightarrow> False
      | JBool b \<Rightarrow> b
      | JInt i \<Rightarrow> i \<noteq> 0
      | JStr s \<Rightarrow> s \<noteq> []
      | JList xs \<Rightarrow> xs \<noteq> []
      | JDict d \<Rightarrow> d \<noteq> [])"

text \<open>
  \<open>int(x)\<close>; \<open>None\<close> stands for the exception it raises (\<open>ValueError\<close> or \<open>TypeError\<close>).
  A string is an optional sign and decimal digits, single underscores allowed between
  digits, surrounded by optional white space.
\<close>

definition is_digit :: "char \<Rightarrow> bool" where
  "is_digit c = (let k = (of_char c :: nat) in 48 \<le> k \<and> k \<le> 57)"

fun digits_value :: "int \<Rightarrow> string \<Rightarrow> int option" where
  "digits_value acc [] = Some acc"
| "digits_value acc [c] = (if is_digit c then Some (acc * 10 + (int (of_char c) - 48)) else None)"
| "digits_value acc (c # c' # cs) =
     (if is_digit c then
        (if c' = CHR ''_'' then
           (case cs of [] \<Rightarrow> None
            | _ \<Rightarrow> if is_digit (hd cs) then digits_value (acc * 10 + (int (of_char c) - 48)) cs else None)
         else digits_value (acc * 10 + (int (of_char c) - 48)) (c' # cs))
      else None)"

definition int_of_str :: "string \<Rightarrow> int option" where
  "int_of_str s =
     (case strip s of
        [] \<Rightarrow> None
      | c # cs \<Rightarrow>
          if c = CHR ''-'' then (if cs = [] then None else map_option uminus (digits_value 0 cs))
          else if c = CHR ''+'' then (if cs = [] then None else digits_value 0 cs)
          else digits_value 0 (c # cs))"

definition py_int :: "json \<Rightarrow> int option" where
  "py_int v =
     (case v of
        JInt i \<Rightarrow> Some i
      | JBool b \<Rightarrow> Some (if b then 1 else 0)
      | JStr s \<Rightarrow> int_of_str s
      | _ \<Rightarrow> None)"

text \<open>\<open>payload.get(name, default)\<close>; without a default the result is \<open>None\<close>.\<close>

definition dict_get :: "py_dict \<Rightarrow> string \<Rightarrow> json \<Rightarrow> json" where
  "dict_get d name default_value = (case map_of d name of None \<Rightarrow> default_value | Some v \<Rightarrow> v)"

definition normalize_project_name :: "pylib \<Rightarrow> json \<Rightarrow> string option" where
  "normalize_project_name lib raw_value =
     (case raw_value of
        JNull \<Rightarrow> None
      | _ \<Rightarrow>
          let text = strip (map (\<lambda>c. if c = CHR 0x0A \<or> c = CHR 0x0D then CHR '' '' else c)
                              (py_str lib raw_value))
          in if text = [] then None else Some text)"

subsection \<open>Validated construction\<close>

text \<open>The local function \<open>opt_int\<close>; the outer \<open>None\<close> is the exception of \<open>int\<close>.\<close>

definition opt_int :: "py_dict \<Rightarrow> string \<Rightarrow> int option option" where
  "opt_int payload name =
     (case dict_get payload name JNull of
        JNull \<Rightarrow> Some None
      | raw \<Rightarrow> if raw = JStr [] then Some None else map_option Some (py_int raw))"

text \<open>
  The loops \<open>for candidate_key in (...): value = f(payload.get(candidate_key));
  if value: break\<close>: the variable keeps the first truthy result, or the last result.
\<close>

fun probe_keys :: "(json \<Rightarrow> string option) \<Rightarrow> py_dict \<Rightarrow> string list \<Rightarrow> string option \<Rightarrow> string option" where
  "probe_keys f payload [] current = current"
| "probe_keys f payload (candidate_key # rest) current =
     (let v = f (dict_get payload candidate_key JNull)
      in if v \<noteq> None \<and> v \<noteq> Some [] then v else probe_keys f payload rest v)"

text \<open>
  \<open>Nag.from_payload\<close>.  The whole body is inside \<open>try ... except Exception: return None\<close>,
  so every exception is the result \<open>None\<close>.  \<open>now_ms_value\<close> is the reading of \<open>now_ms()\<close>
  that is the default of \<open>createdAtEpochMillis\<close>.
\<close>

definition from_payload :: "pylib \<Rightarrow> int \<Rightarrow> py_dict \<Rightarrow> nag option" where
  "from_payload lib now_ms_value payload =
     (let work_name_v = strip (py_str lib (dict_get payload ''workName'' (JStr [])));
          nag_text_v = strip (py_str lib (dict_get payload ''nagText'' (JStr [])))
      in if work_name_v = [] \<or> nag_text_v = [] then None
         else do {
           let skipped =
                 (case dict_get payload ''skippedMonthlyDueEpochMillis'' (JList []) of
                    JList items \<Rightarrow> List.map_filter py_int items
                  | _ \<Rightarrow> []);
           continue_minutes_v \<leftarrow>
             (case dict_get payload ''continueMinutes'' JNull of
                JNull \<Rightarrow> Some None
              | raw \<Rightarrow> map_option Some (py_int raw));
           let icon_glyph_v =
                 probe_keys (normalize_icon_glyph lib) payload
                   [''iconGlyph'', ''icon'', ''iconEmoji'', ''nagIcon'', ''iconText''] None;
           let image_url_v =
                 probe_keys (normalize_image_url lib) payload
                   [''imageUrl'', ''iconImageUrl'', ''nagImageUrl'', ''nagImage'', ''iconUrl'',
                    ''image'', ''icon''] None;
           let project_name_v =
                 probe_keys (normalize_project_name lib) payload
                   [''projectName'', ''project'', ''project_name''] None;
           let icon_png_base64_v =
                 probe_keys (normalize_icon_png_base64 lib) payload
                   [''iconPngBase64'', ''icon_png_base64'', ''iconImageBase64'', ''nagIconBase64''] None;
           visible \<leftarrow> opt_int payload ''recurringVisibleDaysBeforeDue'';
           let recurring_visible_days_before_due_v = map_option (max 1) visible;
           let bucket_v = or_str (py_str lib (dict_get payload ''bucket'' (JStr (DEFAULT_BUCKETS ! 0))))
                            (DEFAULT_BUCKETS ! 0);
           let project_name_v =
                 (if lower bucket_v = lower PROJECT_BUCKET
                  then (case project_name_v of
                          None \<Rightarrow> Some DEFAULT_PROJECT_NAME
                        | Some p \<Rightarrow> Some (or_str p DEFAULT_PROJECT_NAME))
                  else None);
           lateness \<leftarrow> py_int (dict_get payload ''latenessDays'' (JInt 7));
           repeat \<leftarrow> py_int (dict_get payload ''repeatMinutes'' (JInt 60));
           weight_raw \<leftarrow> py_int (dict_get payload ''weight'' (JInt 50));
           one_time \<leftarrow> opt_int payload ''oneTimeEpochMillis'';
           m_day \<leftarrow> opt_int payload ''monthlyDay'';
           m_hour \<leftarrow> opt_int payload ''monthlyHour'';
           m_minute \<leftarrow> opt_int payload ''monthlyMinute'';
           created \<leftarrow> py_int (dict_get payload ''createdAtEpochMillis'' (JInt now_ms_value));
           r_dow \<leftarrow> opt_int payload ''recurringDayOfWeek'';
           r_nth \<leftarrow> opt_int payload ''recurringNthWeek'';
           r_month \<leftarrow> opt_int payload ''recurringMonthOfYear'';
           r_anchor \<leftarrow> opt_int payload ''recurringQuarterAnchorMonth'';
           offset \<leftarrow> py_int (dict_get payload ''pushedOffsetMillis'' (JInt 0));
           pushes \<leftarrow> py_int (dict_get payload ''pushCount'' (JInt 0));
           total \<leftarrow> py_int (dict_get payload ''pushedTotalMillis'' (JInt 0));
           Some \<lparr>work_name = work_name_v,
                 nag_text = nag_text_v,
                 bucket = bucket_v,
                 project_name = project_name_v,
                 lateness_days = max 1 lateness,
                 mode = or_str (py_str lib (dict_get payload ''mode'' (JStr NAG_MODE_ONE_TIME)))
                          NAG_MODE_ONE_TIME,
                 repeat_minutes = max 1 repeat,
                 continue_minutes = continue_minutes_v,
                 notifications_enabled = py_bool (dict_get payload ''notificationsEnabled'' (JBool True)),
                 weight = max 0 (min 100 weight_raw),
                 one_time_epoch_ms = one_time,
                 monthly_day = m_day,
                 monthly_hour = m_hour,
                 monthly_minute = m_minute,
                 created_at_epoch_ms = created,
                 skipped_monthly_due_epoch_ms = sorted_list_of_set (set skipped),
                 icon_glyph = icon_glyph_v,
                 icon_png_base64 = icon_png_base64_v,
                 image_url = image_url_v,
                 recurring_pattern_type =
                   py_str lib (dict_get payload ''recurringPatternType'' (JStr PATTERN_DAY_OF_MONTH)),
                 recurring_day_of_week = r_dow,
                 recurring_nth_week = r_nth,
                 recurring_month_of_year = r_month,
                 recurring_quarter_anchor_month = r_anchor,
                 recurring_visible_days_before_due = recurring_visible_days_before_due_v,
                 pushed_offset_ms = max 0 offset,
                 push_count = max 0 pushes,
                 pushed_total_ms = max 0 total\<rparr>
         })"


section \<open>The event reconciler\<close>

text \<open>\<open>_parse_payload\<close>: a dict may wrap the payload under its own \<open>payload\<close> key.\<close>

lemma map_of_json_size:
  "map_of d k = Some v \<Longrightarrow> size v < Suc (size_list (size_prod (\<lambda>_. 0) size) d)"
  by (induction d) (auto split: if_splits)

function parse_payload :: "pylib \<Rightarrow> json \<Rightarrow> py_dict option" where
  "parse_payload lib (JDict d) =
     (case map_of d ''payload'' of
        Some (JDict inner) \<Rightarrow>
          (case parse_payload lib (JDict inner) of
             Some nested \<Rightarrow> if nested \<noteq> [] then Some nested else Some d
           | None \<Rightarrow> Some d)
      | Some (JStr inner) \<Rightarrow>
          (case parse_payload lib (JStr inner) of
             Some nested \<Rightarrow> if nested \<noteq> [] then Some nested else Some d
           | None \<Rightarrow> Some d)
      | _ \<Rightarrow> Some d)"
| "parse_payload lib (JStr s) =
     (let text = strip s
      in if text = [] then None
         else case json_loads lib text of
                Some (JDict parsed) \<Rightarrow> Some parsed
              | _ \<Rightarrow> None)"
| "parse_payload lib JNull = None"
| "parse_payload lib (JBool b) = None"
| "parse_payload lib (JInt i) = None"
| "parse_payload lib (JList xs) = None"
  by pat_completeness auto
termination
  by (relation "measure (\<lambda>(lib, v). size v)") (auto dest: map_of_json_size)

text \<open>
  The state of the loop of \<open>_rebuild_current_nags_from_events\<close>: the dict \<open>current\<close> and
  the two counters.
\<close>

record rebuild_state =
  current :: "string \<rightharpoonup> nag"
  parseable_count :: nat
  valid_nag_count :: nat

text \<open>
  One iteration of the loop.  \<open>now_ms_value\<close> is what \<open>now_ms()\<close> returns while the row
  is processed.
\<close>

definition rebuild_step :: "pylib \<Rightarrow> int \<Rightarrow> py_dict \<Rightarrow> rebuild_state \<Rightarrow> rebuild_state" where
  "rebuild_step lib now_ms_value row st =
     (case parse_payload lib (dict_get row ''payload'' JNull) of
        None \<Rightarrow> st
      | Some payload \<Rightarrow>
          if payload = [] then st
          else
            let st = st\<lparr>parseable_count := parseable_count st + 1\<rparr>
            in case from_payload lib now_ms_value payload of
                 None \<Rightarrow> st
               | Some n \<Rightarrow>
                   let row_icon_base64 = normalize_icon_png_base64 lib (dict_get row ''icon_png_base64'' JNull);
                       n = (if row_icon_base64 \<noteq> None \<and> row_icon_base64 \<noteq> Some []
                            then n\<lparr>icon_png_base64 := row_icon_base64\<rparr> else n);
                       st = st\<lparr>valid_nag_count := valid_nag_count st + 1\<rparr>;
                       action = lower (strip (py_str lib (dict_get payload ''action'' (JStr []))))
                   in if action = ''delete''
                      then st\<lparr>current := (current st)(work_name n := None)\<rparr>
                      else st\<lparr>current := (current st)(work_name n \<mapsto> n)\<rparr>)"

text \<open>
  The loop over the sorted rows; \<open>clock i\<close> is the reading of \<open>now_ms()\<close> while the
  \<open>i\<close>-th row of the sorted list is processed.
\<close>

fun rebuild_loop :: "pylib \<Rightarrow> (nat \<Rightarrow> int) \<Rightarrow> nat \<Rightarrow> py_dict list \<Rightarrow> rebuild_state \<Rightarrow> rebuild_state" where
  "rebuild_loop lib clock i [] st = st"
| "rebuild_loop lib clock i (row # rows) st =
     rebuild_loop lib clock (Suc i) rows (rebuild_step lib (clock i) row st)"

text \<open>The sort key \<open>str(e.get("created_at", ""))\<close>.\<close>

definition created_at_key :: "pylib \<Rightarrow> py_dict \<Rightarrow> string" where
  "created_at_key lib e = py_str lib (dict_get e ''created_at'' (JStr []))"

text \<open>\<open>sorted\<close> is stable, as \<open>sort_key\<close> is; strings compare lexicographically.\<close>

definition rebuild_current_nags_from_events :: "pylib \<Rightarrow> (nat \<Rightarrow> int) \<Rightarrow> py_dict list \<Rightarrow> rebuild_state" where
  "rebuild_current_nags_from_events lib clock events =
     (let sorted_events = sort_key (created_at_key lib) events
      in rebuild_loop lib clock 0 sorted_events
           \<lparr>current = Map.empty, parseable_count = 0, valid_nag_count = 0\<rparr>)"

subsection \<open>Example rows and payloads\<close>

text \<open>A library stub for the examples: nothing parses and no icon is recognised.\<close>

definition plain_lib :: pylib where
  "plain_lib = \<lparr>py_repr = (\<lambda>_. ''[]''), json_loads = (\<lambda>_. None),
                 normalize_icon_glyph = (\<lambda>_. None), normalize_image_url = (\<lambda>_. None),
                 normalize_icon_png_base64 = (\<lambda>_. None)\<rparr>"

text \<open>Two rows with the same \<open>created_at\<close> and the same reminder key, with different texts.\<close>

definition row_first :: py_dict where
  "row_first =
     [(''id'', JInt 1), (''created_at'', JStr ''2024-01-01T00:00:00+00:00''),
      (''payload'', JDict [(''action'', JStr ''create''), (''workName'', JStr ''w''),
                           (''nagText'', JStr ''first''), (''createdAtEpochMillis'', JInt 0)])]"

definition row_second :: py_dict where
  "row_second =
     [(''id'', JInt 2), (''created_at'', JStr ''2024-01-01T00:00:00+00:00''),
      (''payload'', JDict [(''action'', JStr ''update''), (''workName'', JStr ''w''),
                           (''nagText'', JStr ''second''), (''createdAtEpochMillis'', JInt 0)])]"

definition row_later :: py_dict where
  "row_later =
     [(''id'', JInt 3), (''created_at'', JStr ''2024-01-02T00:00:00+00:00''),
      (''payload'', JDict [(''action'', JStr ''update''), (''workName'', JStr ''w''),
                           (''nagText'', JStr ''later''), (''createdAtEpochMillis'', JInt 0)])]"

text \<open>A payload whose skipped-occurrence list has 201 distinct entries.\<close>

definition long_skipped_payload :: py_dict where
  "long_skipped_payload =
     [(''workName'', JStr ''w''), (''nagText'', JStr ''t''), (''mode'', JStr ''MONTHLY''),
      (''skippedMonthlyDueEpochMillis'', JList (map JInt [1 .. 201]))]"


section \<open>Rounding to a double\<close>

declare bit_length.simps [simp del]

lemma bit_length_bounds:
  "0 < n \<Longrightarrow> 2 ^ (bit_length n - 1) \<le> n \<and> n < 2 ^ bit_length n"
proof (induction n rule: bit_length.induct)
  case (1 n)
  show ?case
  proof (cases "n = 1")
    case True
    have "bit_length 1 = 1"
      by (simp add: bit_length.simps[of 1] bit_length.simps[of 0])
    with True show ?thesis by simp
  next
    case False
    with "1.prems" have pos: "0 < n div 2" by simp
    have not_le: "\<not> n \<le> 0" using "1.prems" by simp
    have ih: "2 ^ (bit_length (n div 2) - 1) \<le> n div 2 \<and> n div 2 < 2 ^ bit_length (n div 2)"
      using "1.IH"[OF not_le pos] .
    have bl: "bit_length n = Suc (bit_length (n div 2))"
      using not_le by (simp add: bit_length.simps[of n])
    have bpos: "0 < bit_length (n div 2)"
      using pos by (simp add: bit_length.simps[of "n div 2"])
    then obtain j where j: "bit_length (n div 2) = Suc j"
      by (cases "bit_length (n div 2)") simp_all
    have "2 * 2 ^ j \<le> 2 * (n div 2)" using ih j by simp
    also have "\<dots> \<le> n" by simp
    finally have lo: "2 ^ (bit_length n - 1) \<le> n" by (simp add: bl j)
    have "n div 2 + 1 \<le> 2 ^ bit_length (n div 2)" using ih by simp
    then have "2 * (n div 2) + 2 \<le> 2 * 2 ^ bit_length (n div 2)" by simp
    moreover have "n < 2 * (n div 2) + 2" by presburger
    ultimately have hi: "n < 2 ^ bit_length n" by (simp add: bl)
    from lo hi show ?thesis ..
  qed
qed

lemma round_half_even_nonneg:
  assumes "0 \<le> num" "0 < den"
  shows "0 \<le> round_half_even num den"
proof -
  have "0 \<le> num div den" using assms by (simp add: pos_imp_zdiv_nonneg_iff)
  then show ?thesis by (simp add: round_half_even_def Let_def)
qed

lemma round_half_even_le:
  assumes "0 < den" "num \<le> K * den"
  shows "round_half_even num den \<le> K"
proof -
  define q where "q = num div den"
  define r where "r = num mod den"
  have qr: "num = den * q + r" by (simp add: q_def r_def)
  have r: "0 \<le> r" "r < den" using assms(1) by (simp_all add: r_def)
  have "den * q + r \<le> den * K" using qr assms(2) by (simp only: mult.commute[of K den])
  then have "den * q \<le> den * K" using r(1) by linarith
  then have qK: "q \<le> K" using assms(1) by (simp add: mult_le_cancel_left_pos)
  have top: "r = 0" if "q = K"
  proof -
    have "den * K + r \<le> den * K" using that qr assms(2) by (simp only: mult.commute[of K den])
    with r(1) show ?thesis by linarith
  qed
  show ?thesis
  proof (cases "q = K")
    case True
    with top assms(1) show ?thesis
      unfolding round_half_even_def q_def[symmetric] r_def[symmetric] Let_def by simp
  next
    case False
    with qK have "q + 1 \<le> K" by simp
    with qK show ?thesis
      unfolding round_half_even_def q_def[symmetric] r_def[symmetric] Let_def by simp
  qed
qed

lemma float_exponent_small:
  assumes "0 < num" "0 < den" "num < den * 2 ^ 53"
  shows "float_exponent num den \<le> 52"
proof (rule ccontr)
  assume "\<not> float_exponent num den \<le> 52"
  then have big: "53 \<le> float_exponent num den" by simp
  define k where "k = int (bit_length num) - int (bit_length den)"
  have fe: "float_exponent num den =
      (if (if 0 \<le> k then den * 2 ^ nat k \<le> num else den \<le> num * 2 ^ nat (- k)) then k else k - 1)"
    by (simp add: float_exponent_def k_def Let_def)
  have k53: "53 \<le> k" using big fe by (simp split: if_splits)
  show False
  proof (cases "den * 2 ^ nat k \<le> num")
    case True
    have "(2::int) ^ 53 \<le> 2 ^ nat k"
      using k53 by (intro power_increasing) simp_all
    then have "den * 2 ^ 53 \<le> den * 2 ^ nat k"
      using assms(2) by (simp add: mult_le_cancel_left_pos)
    with True assms(3) show False by simp
  next
    case False
    with fe k53 have "float_exponent num den = k - 1" by simp
    with big have k54: "54 \<le> k" by simp
    note bn = bit_length_bounds[OF assms(1)]
    note bd = bit_length_bounds[OF assms(2)]
    have "bit_length num = nat (k - 1) + bit_length den + 1"
      using k54 by (simp add: k_def)
    then have "bit_length num - 1 = nat (k - 1) + bit_length den" by simp
    then have "(2::int) ^ nat (k - 1) * 2 ^ bit_length den \<le> num"
      using bn by (simp add: power_add)
    moreover have "(2::int) ^ 53 \<le> 2 ^ nat (k - 1)"
      using k54 by (intro power_increasing) simp_all
    moreover have "den < 2 ^ bit_length den" using bd by simp
    moreover have "(2::int) ^ 53 * den \<le> 2 ^ nat (k - 1) * 2 ^ bit_length den"
      using calculation(2,3) assms(2) by (intro mult_mono) simp_all
    ultimately show False using assms(3) by (simp add: mult.commute)
  qed
qed

lemma round_double_le:
  assumes "0 \<le> num" "0 < den" "num \<le> C * den" "C < 2 ^ 53"
  shows "\<exists>m e. round_double num den = (m, e) \<and> e \<le> 0 \<and> 0 \<le> m \<and> m \<le> C * 2 ^ nat (- e)"
proof (cases "num = 0")
  case True
  have "0 \<le> C * den" using assms(1,3) by simp
  then have "0 \<le> C" using assms(2) by (simp add: zero_le_mult_iff)
  with True show ?thesis by (simp add: round_double_def)
next
  case False
  with assms(1) have pos: "0 < num" by simp
  define e where "e = max (float_exponent num den - 52) (- 1074)"
  have "C * den < 2 ^ 53 * den" using assms(2,4) by simp
  then have "num < den * 2 ^ 53" using assms(3) by (simp add: mult.commute)
  then have e0: "e \<le> 0"
    using float_exponent_small[OF pos assms(2)] by (simp add: e_def)
  have rd: "round_double num den =
      (if 0 \<le> e then round_half_even num (den * 2 ^ nat e)
       else round_half_even (num * 2 ^ nat (- e)) den, e)"
    using False by (simp add: round_double_def e_def Let_def)
  show ?thesis
  proof (cases "e = 0")
    case True
    then have "round_double num den = (round_half_even num den, 0)" using rd by simp
    moreover have "round_half_even num den \<le> C"
      using assms(2,3) by (rule round_half_even_le)
    moreover have "0 \<le> round_half_even num den"
      using assms(1,2) by (rule round_half_even_nonneg)
    ultimately show ?thesis by simp
  next
    case ne: False
    with e0 have neg: "\<not> 0 \<le> e" by simp
    have rd': "round_double num den = (round_half_even (num * 2 ^ nat (- e)) den, e)"
      using rd neg by simp
    have "num * 2 ^ nat (- e) \<le> (C * den) * 2 ^ nat (- e)"
      using assms(3) by (intro mult_right_mono) simp_all
    then have "num * 2 ^ nat (- e) \<le> (C * 2 ^ nat (- e)) * den"
      by (simp add: mult.assoc mult.left_commute mult.commute)
    then have "round_half_even (num * 2 ^ nat (- e)) den \<le> C * 2 ^ nat (- e)"
      using assms(2) by (intro round_half_even_le)
    moreover have "0 \<le> round_half_even (num * 2 ^ nat (- e)) den"
      using assms(1,2) by (intro round_half_even_nonneg) simp_all
    ultimately show ?thesis using rd' e0 by simp
  qed
qed


section \<open>The calendar: ordinals and dates\<close>

text \<open>
  The facts about Python's proleptic Gregorian ordinal that the recurrence engine
  relies on: \<open>ord2ymd\<close> inverts \<open>ymd2ord\<close> on valid dates, every ordinal in range is
  the ordinal of a valid date, and \<open>month_max_day\<close> is the length of the month.
\<close>

lemma divmod_unique:
  fixes q r b :: int
  assumes "0 \<le> r" "r < b"
  shows "(b * q + r) div b = q" "(b * q + r) mod b = r"
  using assms by simp_all

lemma mod_zero_iff_top:
  fixes x N :: int
  assumes "0 < x" "x \<le> N"
  shows "x mod N = 0 \<longleftrightarrow> x = N"
proof (cases "x = N")
  case True then show ?thesis by simp
next
  case False
  with assms have "x mod N = x" by simp
  with assms False show ?thesis by simp
qed

lemma year_parts:
  fixes Y :: int
  assumes "0 \<le> Y"
  obtains a b c e where "Y = 400 * a + 100 * b + 4 * c + e"
    "0 \<le> a" "0 \<le> b" "b \<le> 3" "0 \<le> c" "c \<le> 24" "0 \<le> e" "e \<le> 3"
proof
  define r where "r = Y mod 400"
  define s where "s = r mod 100"
  have r: "0 \<le> r" "r < 400" by (simp_all add: r_def)
  have s: "0 \<le> s" "s < 100" by (simp_all add: s_def)
  have "Y = 400 * (Y div 400) + r" by (simp add: r_def)
  moreover have "r = 100 * (r div 100) + s" by (simp add: s_def)
  moreover have "s = 4 * (s div 4) + s mod 4" by simp
  ultimately show "Y = 400 * (Y div 400) + 100 * (r div 100) + 4 * (s div 4) + s mod 4"
    by linarith
  show "0 \<le> Y div 400" using assms by simp
  show "0 \<le> r div 100" using r by simp
  show "r div 100 \<le> 3" using r by simp
  show "0 \<le> s div 4" using s by simp
  show "s div 4 \<le> 24" using s by simp
  show "0 \<le> s mod 4" by simp
  show "s mod 4 \<le> 3" by simp
qed

lemma days_before_year_parts:
  assumes "0 \<le> a" "0 \<le> b" "b \<le> 3" "0 \<le> c" "c \<le> 24" "0 \<le> e" "e \<le> 3"
  shows "days_before_year (400 * a + 100 * b + 4 * c + e + 1)
           = 146097 * a + 36524 * b + 1461 * c + 365 * e"
proof -
  let ?Y = "400 * a + 100 * b + 4 * c + e"
  have "?Y = 4 * (100 * a + 25 * b + c) + e" by simp
  then have 1: "?Y div 4 = 100 * a + 25 * b + c"
    using divmod_unique(1)[of e 4 "100 * a + 25 * b + c"] assms by simp
  have "?Y = 100 * (4 * a + b) + (4 * c + e)" by simp
  then have 2: "?Y div 100 = 4 * a + b"
    using divmod_unique(1)[of "4 * c + e" 100 "4 * a + b"] assms by simp
  have "?Y = 400 * a + (100 * b + 4 * c + e)" by simp
  then have 3: "?Y div 400 = a"
    using divmod_unique(1)[of "100 * b + 4 * c + e" 400 a] assms by simp
  show ?thesis
    unfolding days_before_year_def Let_def using 1 2 3 by simp
qed

lemma is_leap_parts:
  assumes "0 \<le> a" "0 \<le> b" "b \<le> 3" "0 \<le> c" "c \<le> 24" "0 \<le> e" "e \<le> 3"
  shows "is_leap (400 * a + 100 * b + 4 * c + e + 1) \<longleftrightarrow> e = 3 \<and> (c \<noteq> 24 \<or> b = 3)"
proof -
  let ?y = "400 * a + 100 * b + 4 * c + e + 1"
  have m4: "?y mod 4 = (e + 1) mod 4"
  proof -
    have "?y = (e + 1) + 4 * (100 * a + 25 * b + c)" by simp
    then show ?thesis by (simp only: mod_mult_self2)
  qed
  have m100: "?y mod 100 = (4 * c + e + 1) mod 100"
  proof -
    have "?y = (4 * c + e + 1) + 100 * (4 * a + b)" by simp
    then show ?thesis by (simp only: mod_mult_self2)
  qed
  have m400: "?y mod 400 = (100 * b + 4 * c + e + 1) mod 400"
  proof -
    have "?y = (100 * b + 4 * c + e + 1) + 400 * a" by simp
    then show ?thesis by (simp only: mod_mult_self2)
  qed
  have 1: "?y mod 4 = 0 \<longleftrightarrow> e = 3"
  proof -
    have "(e + 1) mod 4 = 0 \<longleftrightarrow> e + 1 = 4"
      by (rule mod_zero_iff_top) (use assms(6,7) in simp_all)
    then show ?thesis unfolding m4 by auto
  qed
  have 2: "?y mod 100 = 0 \<longleftrightarrow> c = 24 \<and> e = 3"
  proof -
    have "0 < 4 * c + e + 1" "4 * c + e + 1 \<le> 100" using assms by simp_all
    then have "(4 * c + e + 1) mod 100 = 0 \<longleftrightarrow> 4 * c + e + 1 = 100"
      by (rule mod_zero_iff_top)
    moreover have "4 * c + e + 1 = 100 \<longleftrightarrow> c = 24 \<and> e = 3"
    proof
      assume h: "4 * c + e + 1 = 100"
      have "c = 24" using h assms(4-7) by linarith
      with h show "c = 24 \<and> e = 3" by simp
    qed simp
    ultimately show ?thesis unfolding m100 by simp
  qed
  have 3: "?y mod 400 = 0 \<longleftrightarrow> b = 3 \<and> c = 24 \<and> e = 3"
  proof -
    have "0 < 100 * b + 4 * c + e + 1" "100 * b + 4 * c + e + 1 \<le> 400" using assms by simp_all
    then have "(100 * b + 4 * c + e + 1) mod 400 = 0 \<longleftrightarrow> 100 * b + 4 * c + e + 1 = 400"
      by (rule mod_zero_iff_top)
    moreover have "100 * b + 4 * c + e + 1 = 400 \<longleftrightarrow> b = 3 \<and> c = 24 \<and> e = 3"
    proof
      assume h: "100 * b + 4 * c + e + 1 = 400"
      have "b = 3" using h assms(2-7) by linarith
      moreover have "c = 24" using h \<open>b = 3\<close> assms(4-7) by linarith
      ultimately show "b = 3 \<and> c = 24 \<and> e = 3" using h by simp
    qed simp
    ultimately show ?thesis unfolding m400 by simp
  qed
  show ?thesis unfolding is_leap_def 1 2 3 by auto
qed


lemma ord2ymd_unfold:
  assumes "n0 - 1 = 146097 * n400 + r1" "0 \<le> r1" "r1 < 146097"
    and "r1 = 36524 * n100 + r2" "0 \<le> r2" "r2 < 36524"
    and "r2 = 1461 * n4 + r3" "0 \<le> r3" "r3 < 1461"
    and "r3 = 365 * n1 + r4" "0 \<le> r4" "r4 < 365"
  shows "ord2ymd n0 =
     (let y = n400 * 400 + 1 + n100 * 100 + n4 * 4 + n1
      in if n1 = 4 \<or> n100 = 4 then \<lparr>year = y - 1, month = 12, day = 31\<rparr>
         else
           let leapyear = (n1 = 3 \<and> (n4 \<noteq> 24 \<or> n100 = 3));
               m = (r4 + 50) div 32;
               preceding = DAYS_BEFORE_MONTH m + (if m > 2 \<and> leapyear then 1 else 0)
           in if preceding > r4
              then let m' = m - 1;
                       preceding' = preceding - (DAYS_IN_MONTH m' + (if m' = 2 \<and> leapyear then 1 else 0))
                   in \<lparr>year = y, month = m', day = r4 - preceding' + 1\<rparr>
              else \<lparr>year = y, month = m, day = r4 - preceding + 1\<rparr>)"
proof -
  have d1: "(n0 - 1) div 146097 = n400" and m1: "(n0 - 1) mod 146097 = r1"
    unfolding assms(1) using assms(2,3) by (rule divmod_unique)+
  have d2: "r1 div 36524 = n100" and m2: "r1 mod 36524 = r2"
    unfolding assms(4) using assms(5,6) by (rule divmod_unique)+
  have d3: "r2 div 1461 = n4" and m3: "r2 mod 1461 = r3"
    unfolding assms(7) using assms(8,9) by (rule divmod_unique)+
  have d4: "r3 div 365 = n1" and m4: "r3 mod 365 = r4"
    unfolding assms(10) using assms(11,12) by (rule divmod_unique)+
  show ?thesis
    unfolding ord2ymd_def Let_def d1 m1 d2 m2 d3 m3 d4 m4 ..
qed


lemma month_cases:
  fixes m :: int
  assumes "1 \<le> m" "m \<le> 12"
  shows "m = 1 \<or> m = 2 \<or> m = 3 \<or> m = 4 \<or> m = 5 \<or> m = 6 \<or> m = 7 \<or> m = 8 \<or> m = 9
         \<or> m = 10 \<or> m = 11 \<or> m = 12"
  using assms by presburger

lemma month_day_of_doy:
  assumes "1 \<le> m" "m \<le> 12" "1 \<le> d"
    and "d \<le> DAYS_IN_MONTH m + (if m = 2 \<and> L then 1 else 0)"
    and "r = DAYS_BEFORE_MONTH m + (if m > 2 \<and> L then 1 else 0) + d - 1"
    and "r < 365"
  shows "(let mm = (r + 50) div 32;
              preceding = DAYS_BEFORE_MONTH mm + (if mm > 2 \<and> L then 1 else 0)
          in if preceding > r
             then let m' = mm - 1;
                      preceding' = preceding - (DAYS_IN_MONTH m' + (if m' = 2 \<and> L then 1 else 0))
                  in \<lparr>year = y, month = m', day = r - preceding' + 1\<rparr>
             else \<lparr>year = y, month = mm, day = r - preceding + 1\<rparr>)
         = \<lparr>year = y, month = m, day = d\<rparr>"
proof -
  have mm: "(r + 50) div 32 = m \<or> (r + 50) div 32 = m + 1"
    using month_cases[OF assms(1,2)] assms(3-6)
    by (elim disjE; simp add: DAYS_IN_MONTH_def DAYS_BEFORE_MONTH_def split: if_splits; linarith)
  show ?thesis
    using mm month_cases[OF assms(1,2)] assms(3-6)
    by (elim disjE; simp add: DAYS_IN_MONTH_def DAYS_BEFORE_MONTH_def Let_def split: if_splits)
qed


lemma day_of_year_bounds:
  assumes "1 \<le> m" "m \<le> 12" "1 \<le> d" "d \<le> days_in_month y m"
  shows "0 \<le> days_before_month y m + d - 1"
    and "days_before_month y m + d - 1 < 365 + (if is_leap y then 1 else 0)"
    and "days_before_month y m + d - 1 = 365 \<Longrightarrow> is_leap y \<and> m = 12 \<and> d = 31"
  using month_cases[OF assms(1,2)] assms(3,4)
  by (elim disjE; simp add: days_in_month_def days_before_month_def DAYS_IN_MONTH_def
        DAYS_BEFORE_MONTH_def split: if_splits)+

lemma special_400:
  assumes n0': "n - 1 = 146097 * a + 146096"
  shows "ord2ymd n = \<lparr>year = a * 400 + 400, month = 12, day = 31\<rparr>"
proof -
  have "ord2ymd n =
     (let y = a * 400 + 1 + 4 * 100 + 0 * 4 + 0
      in if (0::int) = 4 \<or> (4::int) = 4 then \<lparr>year = y - 1, month = 12, day = 31\<rparr>
         else
           let leapyear = ((0::int) = 3 \<and> ((0::int) \<noteq> 24 \<or> (4::int) = 3));
               m = ((0::int) + 50) div 32;
               preceding = DAYS_BEFORE_MONTH m + (if m > 2 \<and> leapyear then 1 else 0)
           in if preceding > 0
              then let m' = m - 1;
                       preceding' = preceding - (DAYS_IN_MONTH m' + (if m' = 2 \<and> leapyear then 1 else 0))
                   in \<lparr>year = y, month = m', day = 0 - preceding' + 1\<rparr>
              else \<lparr>year = y, month = m, day = 0 - preceding + 1\<rparr>)"
    by (rule ord2ymd_unfold[OF n0']) simp_all
  also have "\<dots> = \<lparr>year = a * 400 + 1 + 4 * 100 + 0 * 4 + 0 - 1, month = 12, day = 31\<rparr>"
    unfolding Let_def by (simp only: simp_thms if_True)
  also have "\<dots> = \<lparr>year = a * 400 + 400, month = 12, day = 31\<rparr>"
    by simp
  finally show ?thesis .
qed


lemma special_4:
  assumes n0': "n - 1 = 146097 * a + (36524 * b + (1461 * c + 1460))"
    and bs: "0 \<le> b" "b \<le> 3" "0 \<le> c" "c \<le> 23"
  shows "ord2ymd n = \<lparr>year = a * 400 + b * 100 + c * 4 + 4, month = 12, day = 31\<rparr>"
proof -
  have "ord2ymd n =
     (let y = a * 400 + 1 + b * 100 + c * 4 + 4
      in if (4::int) = 4 \<or> b = 4 then \<lparr>year = y - 1, month = 12, day = 31\<rparr>
         else
           let leapyear = ((4::int) = 3 \<and> (c \<noteq> 24 \<or> b = 3));
               m = ((0::int) + 50) div 32;
               preceding = DAYS_BEFORE_MONTH m + (if m > 2 \<and> leapyear then 1 else 0)
           in if preceding > 0
              then let m' = m - 1;
                       preceding' = preceding - (DAYS_IN_MONTH m' + (if m' = 2 \<and> leapyear then 1 else 0))
                   in \<lparr>year = y, month = m', day = 0 - preceding' + 1\<rparr>
              else \<lparr>year = y, month = m, day = 0 - preceding + 1\<rparr>)"
  proof (rule ord2ymd_unfold[OF n0' _ _ refl])
    show "1461 * c + 1460 = 1461 * c + 1460" ..
    show "(1460::int) = 365 * 4 + 0" by simp
  qed (use bs in simp_all)
  also have "\<dots> = \<lparr>year = a * 400 + 1 + b * 100 + c * 4 + 4 - 1, month = 12, day = 31\<rparr>"
    unfolding Let_def by (simp only: simp_thms if_True)
  also have "\<dots> = \<lparr>year = a * 400 + b * 100 + c * 4 + 4, month = 12, day = 31\<rparr>"
    by simp
  finally show ?thesis .
qed


lemma regular_day:
  assumes n0: "n - 1 = 146097 * a + (36524 * b + (1461 * c + (365 * e + r)))"
    and bs: "0 \<le> b" "b \<le> 3" "0 \<le> c" "c \<le> 24" "0 \<le> e" "e \<le> 3"
    and r: "0 \<le> r" "r < 365"
    and L: "L \<longleftrightarrow> e = 3 \<and> (c \<noteq> 24 \<or> b = 3)"
    and m: "1 \<le> m" "m \<le> 12" "1 \<le> d"
    and md: "d \<le> DAYS_IN_MONTH m + (if m = 2 \<and> L then 1 else 0)"
    and rr: "r = DAYS_BEFORE_MONTH m + (if m > 2 \<and> L then 1 else 0) + d - 1"
  shows "ord2ymd n = \<lparr>year = a * 400 + 1 + b * 100 + c * 4 + e, month = m, day = d\<rparr>"
proof -
  have u: "ord2ymd n =
     (let y' = a * 400 + 1 + b * 100 + c * 4 + e
      in if e = 4 \<or> b = 4 then \<lparr>year = y' - 1, month = 12, day = 31\<rparr>
         else
           let leapyear = (e = 3 \<and> (c \<noteq> 24 \<or> b = 3));
               mm = (r + 50) div 32;
               preceding = DAYS_BEFORE_MONTH mm + (if mm > 2 \<and> leapyear then 1 else 0)
           in if preceding > r
              then let m' = mm - 1;
                       preceding' = preceding - (DAYS_IN_MONTH m' + (if m' = 2 \<and> leapyear then 1 else 0))
                   in \<lparr>year = y', month = m', day = r - preceding' + 1\<rparr>
              else \<lparr>year = y', month = mm, day = r - preceding + 1\<rparr>)"
  proof (rule ord2ymd_unfold[OF n0 _ _ refl _ _ refl _ _ refl])
    show "0 \<le> 36524 * b + (1461 * c + (365 * e + r))" using bs r by linarith
    show "36524 * b + (1461 * c + (365 * e + r)) < 146097" using bs r by linarith
    show "0 \<le> 1461 * c + (365 * e + r)" using bs r by linarith
    show "1461 * c + (365 * e + r) < 36524" using bs r by linarith
    show "0 \<le> 365 * e + r" using bs r by linarith
    show "365 * e + r < 1461" using bs r by linarith
    show "0 \<le> r" "r < 365" using r by simp_all
  qed
  have ne: "\<not> (e = 4 \<or> b = 4)" using bs by simp
  show ?thesis
    unfolding u Let_def if_not_P[OF ne] L[symmetric]
    using month_day_of_doy[OF m md rr r(2), of "a * 400 + 1 + b * 100 + c * 4 + e", unfolded Let_def] .
qed


lemma ord2ymd_ymd2ord:
  assumes "1 \<le> y" "1 \<le> m" "m \<le> 12" "1 \<le> d" "d \<le> days_in_month y m"
  shows "ord2ymd (ymd2ord y m d) = \<lparr>year = y, month = m, day = d\<rparr>"
proof -
  from assms(1) have "0 \<le> y - 1" by simp
  then obtain a b c e where Y: "y - 1 = 400 * a + 100 * b + 4 * c + e"
    and bs: "0 \<le> a" "0 \<le> b" "b \<le> 3" "0 \<le> c" "c \<le> 24" "0 \<le> e" "e \<le> 3"
    by (rule year_parts)
  have y: "y = 400 * a + 100 * b + 4 * c + e + 1" using Y by linarith
  have L: "is_leap y \<longleftrightarrow> e = 3 \<and> (c \<noteq> 24 \<or> b = 3)"
    unfolding y by (rule is_leap_parts[OF bs])
  have dby: "days_before_year y = 146097 * a + 36524 * b + 1461 * c + 365 * e"
    unfolding y by (rule days_before_year_parts[OF bs])
  define r where "r = days_before_month y m + d - 1"
  have rb: "0 \<le> r" "r < 365 + (if is_leap y then 1 else 0)"
    "r = 365 \<Longrightarrow> is_leap y \<and> m = 12 \<and> d = 31"
    unfolding r_def by (rule day_of_year_bounds[OF assms(2-5)])+
  have "ymd2ord y m d - 1 = days_before_year y + r"
    unfolding ymd2ord_def r_def by linarith
  then have n0: "ymd2ord y m d - 1 = 146097 * a + (36524 * b + (1461 * c + (365 * e + r)))"
    unfolding dby by linarith
  have yy: "a * 400 + 1 + b * 100 + c * 4 + e = y" unfolding y by linarith
  show ?thesis
  proof (cases "r = 365")
    case False
    with rb(2) have r365: "r < 365" by (cases "is_leap y") simp_all
    have md: "d \<le> DAYS_IN_MONTH m + (if m = 2 \<and> is_leap y then 1 else 0)"
    proof (cases "m = 2 \<and> is_leap y")
      case True
      then have "days_in_month y m = 29" "DAYS_IN_MONTH m = 28"
        by (simp_all add: days_in_month_def DAYS_IN_MONTH_def)
      with assms(5) True show ?thesis by simp
    next
      case False
      then have "days_in_month y m = DAYS_IN_MONTH m"
        unfolding days_in_month_def by (rule if_not_P)
      with assms(5) show ?thesis unfolding if_not_P[OF False] by simp
    qed
    have rr: "r = DAYS_BEFORE_MONTH m + (if m > 2 \<and> is_leap y then 1 else 0) + d - 1"
      unfolding r_def days_before_month_def ..
    show ?thesis
      using regular_day[OF n0 bs(2-7) rb(1) r365 L assms(2-4) md rr] unfolding yy .
  next
    case True
    from rb(3)[OF True] have top: "is_leap y" "m = 12" "d = 31" by simp_all
    from top(1) L have e3: "e = 3" and cb: "c \<noteq> 24 \<or> b = 3" by simp_all
    show ?thesis
    proof (cases "c = 24")
      case c24: True
      with cb have b3: "b = 3" by simp
      have n0': "ymd2ord y m d - 1 = 146097 * a + 146096"
        unfolding n0 c24 b3 e3 True by simp
      have "y = a * 400 + 400" unfolding y c24 b3 e3 by simp
      then show ?thesis using special_400[OF n0'] top by simp
    next
      case False
      with bs have c23: "c \<le> 23" by simp
      have n0': "ymd2ord y m d - 1 = 146097 * a + (36524 * b + (1461 * c + 1460))"
        unfolding n0 e3 True by simp
      have "y = a * 400 + b * 100 + c * 4 + 4" unfolding y e3 by simp
      then show ?thesis using special_4[OF n0' bs(2,3,4) c23] top by simp
    qed
  qed
qed

lemma div_step:
  fixes y k :: int
  assumes "0 < k"
  shows "y div k - (y - 1) div k = (if y mod k = 0 then 1 else 0)"
proof (cases "y mod k = 0")
  case True
  have e: "y - 1 = k * (y div k - 1) + (k - 1)"
    using div_mult_mod_eq[of y k] True by (simp add: algebra_simps)
  have "(y - 1) div k = (k * (y div k - 1) + (k - 1)) div k"
    by (simp only: e[symmetric])
  also have "\<dots> = y div k - 1"
    by (rule divmod_unique(1)) (use assms in simp_all)
  finally show ?thesis using True by simp
next
  case False
  have p: "0 \<le> y mod k - 1" "y mod k - 1 < k"
    using assms False pos_mod_sign[of k y] pos_mod_bound[of k y] by linarith+
  have e: "y - 1 = k * (y div k) + (y mod k - 1)"
    using div_mult_mod_eq[of y k] by (simp add: algebra_simps)
  have "(y - 1) div k = (k * (y div k) + (y mod k - 1)) div k"
    by (simp only: e[symmetric])
  also have "\<dots> = y div k"
    by (rule divmod_unique(1)[OF p])
  finally show ?thesis using False by simp
qed

lemma days_before_year_succ:
  "days_before_year (y + 1) = days_before_year y + 365 + (if is_leap y then 1 else 0)"
proof -
  define q4 where "q4 = (y - 1) div 4"
  define q100 where "q100 = (y - 1) div 100"
  define q400 where "q400 = (y - 1) div 400"
  have 4: "y div 4 = q4 + (if y mod 4 = 0 then 1 else 0)"
    using div_step[of 4 y] by (simp add: q4_def)
  have 100: "y div 100 = q100 + (if y mod 100 = 0 then 1 else 0)"
    using div_step[of 100 y] by (simp add: q100_def)
  have 400: "y div 400 = q400 + (if y mod 400 = 0 then 1 else 0)"
    using div_step[of 400 y] by (simp add: q400_def)
  have a: "y mod 4 = 0" if "y mod 100 = 0"
  proof -
    from that have "100 dvd y" by (simp add: mod_eq_0_iff_dvd)
    moreover have "(4::int) dvd 100" by simp
    ultimately have "4 dvd y" by (rule dvd_trans[rotated])
    then show ?thesis by (simp add: mod_eq_0_iff_dvd)
  qed
  have b: "y mod 100 = 0" if "y mod 400 = 0"
  proof -
    from that have "400 dvd y" by (simp add: mod_eq_0_iff_dvd)
    moreover have "(100::int) dvd 400" by simp
    ultimately have "100 dvd y" by (rule dvd_trans[rotated])
    then show ?thesis by (simp add: mod_eq_0_iff_dvd)
  qed
  have l: "days_before_year (y + 1) = y * 365 + y div 4 - y div 100 + y div 400"
    by (simp add: days_before_year_def)
  have r: "days_before_year y = (y - 1) * 365 + q4 - q100 + q400"
    by (simp add: days_before_year_def Let_def q4_def q100_def q400_def)
  show ?thesis
  proof (cases "y mod 4 = 0")
    case False
    with a b have "y mod 100 \<noteq> 0" "y mod 400 \<noteq> 0" by auto
    with False show ?thesis unfolding l r 4 100 400 is_leap_def by simp
  next
    case t4: True
    show ?thesis
    proof (cases "y mod 100 = 0")
      case False
      with b have "y mod 400 \<noteq> 0" by auto
      with t4 False show ?thesis unfolding l r 4 100 400 is_leap_def by simp
    next
      case t100: True
      show ?thesis
      proof (cases "y mod 400 = 0")
        case False
        with t4 t100 show ?thesis unfolding l r 4 100 400 is_leap_def by simp
      next
        case True
        with t4 t100 show ?thesis unfolding l r 4 100 400 is_leap_def by simp
      qed
    qed
  qed
qed

lemma days_before_year_mono:
  assumes "y \<le> z"
  shows "days_before_year y \<le> days_before_year z"
  using assms
proof (induction z rule: int_ge_induct)
  case base
  show ?case by simp
next
  case (step i)
  then show ?case using days_before_year_succ[of i] by (simp split: if_splits)
qed

lemma days_before_year_1: "days_before_year 1 = 0"
  by (simp add: days_before_year_def)

lemma days_before_year_10000: "days_before_year 10000 = 3652059"
  by (simp add: days_before_year_def)

lemma days_before_month_succ:
  assumes "1 \<le> m" "m < 12"
  shows "days_before_month y (m + 1) = days_before_month y m + days_in_month y m"
proof -
  have "m = 1 \<or> m = 2 \<or> m = 3 \<or> m = 4 \<or> m = 5 \<or> m = 6 \<or> m = 7 \<or> m = 8 \<or> m = 9
          \<or> m = 10 \<or> m = 11"
    using month_cases[of m] assms by simp
  then show ?thesis
    by (elim disjE; simp add: days_before_month_def days_in_month_def DAYS_BEFORE_MONTH_def
          DAYS_IN_MONTH_def)
qed

lemma days_before_month_12: "days_before_month y 12 + 31 = 365 + (if is_leap y then 1 else 0)"
  by (simp add: days_before_month_def DAYS_BEFORE_MONTH_def)

lemma days_in_month_ge_28:
  assumes "1 \<le> m" "m \<le> 12"
  shows "28 \<le> days_in_month y m" "days_in_month y m \<le> 31"
  using month_cases[OF assms]
  by (elim disjE; simp add: days_in_month_def DAYS_IN_MONTH_def)+

lemma days_before_month_nonneg:
  assumes "1 \<le> m" "m \<le> 12"
  shows "0 \<le> days_before_month y m"
  using month_cases[OF assms]
  by (elim disjE; simp add: days_before_month_def DAYS_BEFORE_MONTH_def)

text \<open>A valid date: what \<open>dt.date\<close> accepts.\<close>

lemma py_date_Inr_iff:
  "py_date y m d = Inr dv \<longleftrightarrow>
     1 \<le> y \<and> y \<le> 9999 \<and> 1 \<le> m \<and> m \<le> 12 \<and> 1 \<le> d \<and> d \<le> days_in_month y m
     \<and> dv = \<lparr>year = y, month = m, day = d\<rparr>"
  by (auto simp: py_date_def MINYEAR_def MAXYEAR_def)

lemma ymd2ord_bounds:
  assumes "1 \<le> y" "y \<le> 9999" "1 \<le> m" "m \<le> 12" "1 \<le> d" "d \<le> days_in_month y m"
  shows "1 \<le> ymd2ord y m d" "ymd2ord y m d \<le> MAXORDINAL"
proof -
  have "0 \<le> days_before_year y"
    using days_before_year_mono[OF assms(1)] by (simp add: days_before_year_1)
  then show "1 \<le> ymd2ord y m d"
    using days_before_month_nonneg[OF assms(3,4), of y] assms(5) by (simp add: ymd2ord_def)
  have "days_before_month y m + d - 1 < 365 + (if is_leap y then 1 else 0)"
    by (rule day_of_year_bounds(2)[OF assms(3-6)])
  then have "ymd2ord y m d \<le> days_before_year (y + 1)"
    unfolding ymd2ord_def days_before_year_succ by linarith
  also have "\<dots> \<le> days_before_year 10000"
    by (rule days_before_year_mono) (use assms(2) in simp)
  finally show "ymd2ord y m d \<le> MAXORDINAL"
    by (simp add: days_before_year_10000 MAXORDINAL_def)
qed

text \<open>The day before the first of the next month is the last day of the month.\<close>

lemma month_max_day_eq:
  assumes "1 \<le> y" "y \<le> 9999" "1 \<le> m" "m \<le> 12" "\<not> (y = 9999 \<and> m = 12)"
  shows "month_max_day y m = Inr (days_in_month y m)"
proof -
  note dim = days_in_month_ge_28[OF assms(3,4), of y]
  have last_ok: "1 \<le> days_in_month y m" using dim by simp
  have rt: "ord2ymd (ymd2ord y m (days_in_month y m))
              = \<lparr>year = y, month = m, day = days_in_month y m\<rparr>"
    by (rule ord2ymd_ymd2ord[OF assms(1,3,4) last_ok order_refl])
  have rg: "0 < ymd2ord y m (days_in_month y m)" "ymd2ord y m (days_in_month y m) \<le> MAXORDINAL"
    using ymd2ord_bounds[OF assms(1-4) last_ok order_refl] by simp_all
  show ?thesis
  proof (cases "m = 12")
    case True
    with assms(5) have y: "y + 1 \<le> 9999" using assms(2) by simp
    have nx: "py_date (y + 1) 1 1 = Inr \<lparr>year = y + 1, month = 1, day = 1\<rparr>"
      using assms(1) y by (simp add: py_date_def MINYEAR_def MAXYEAR_def days_in_month_def DAYS_IN_MONTH_def)
    have "days_in_month y 12 = 31" by (simp add: days_in_month_def DAYS_IN_MONTH_def)
    then have o: "ymd2ord (y + 1) 1 1 + - 1 = ymd2ord y m (days_in_month y m)"
      using True days_before_month_12[of y]
      by (simp add: ymd2ord_def days_before_year_succ days_before_month_def DAYS_BEFORE_MONTH_def)
    have "date_add_days \<lparr>year = y + 1, month = 1, day = 1\<rparr> (- 1)
            = Inr \<lparr>year = y, month = m, day = days_in_month y m\<rparr>"
      unfolding date_add_days_def toordinal_def Let_def date.simps o rt using rg by simp
    then show ?thesis
      unfolding month_max_day_def using True nx by simp
  next
    case False
    then have m11: "m < 12" using assms(4) by simp
    have nx: "py_date y (m + 1) 1 = Inr \<lparr>year = y, month = m + 1, day = 1\<rparr>"
      using assms(1-3) m11 days_in_month_ge_28(1)[of "m + 1" y]
      by (simp add: py_date_def MINYEAR_def MAXYEAR_def)
    have o: "ymd2ord y (m + 1) 1 + - 1 = ymd2ord y m (days_in_month y m)"
      using days_before_month_succ[OF assms(3) m11, of y] by (simp add: ymd2ord_def)
    have "date_add_days \<lparr>year = y, month = m + 1, day = 1\<rparr> (- 1)
            = Inr \<lparr>year = y, month = m, day = days_in_month y m\<rparr>"
      unfolding date_add_days_def toordinal_def Let_def date.simps o rt using rg by simp
    then show ?thesis
      unfolding month_max_day_def using False nx by simp
  qed
qed

lemma ordinal_has_date:
  assumes "1 \<le> n" "n \<le> MAXORDINAL"
  shows "\<exists>y m d. 1 \<le> y \<and> y \<le> 9999 \<and> 1 \<le> m \<and> m \<le> 12 \<and> 1 \<le> d \<and> d \<le> days_in_month y m
           \<and> ymd2ord y m d = n"
  using assms
proof (induction n rule: int_ge_induct)
  case base
  have "ymd2ord 1 1 1 = 1"
    by (simp add: ymd2ord_def days_before_year_1 days_before_month_def DAYS_BEFORE_MONTH_def)
  moreover have "(1::int) \<le> days_in_month 1 1"
    by (simp add: days_in_month_def DAYS_IN_MONTH_def)
  ultimately show ?case by (intro exI[of _ 1]) simp
next
  case (step i)
  from step.prems have "i \<le> MAXORDINAL" by simp
  with step.IH obtain y m d where v: "1 \<le> y" "y \<le> 9999" "1 \<le> m" "m \<le> 12" "1 \<le> d"
    "d \<le> days_in_month y m" and o: "ymd2ord y m d = i"
    by blast
  show ?case
  proof (cases "d < days_in_month y m")
    case True
    have "ymd2ord y m (d + 1) = i + 1" using o by (simp add: ymd2ord_def)
    with v True show ?thesis by (intro exI[of _ y] exI[of _ m] exI[of _ "d + 1"]) simp
  next
    case False
    with v(6) have dl: "d = days_in_month y m" by simp
    show ?thesis
    proof (cases "m < 12")
      case True
      have "ymd2ord y (m + 1) 1 = i + 1"
        using o dl days_before_month_succ[OF v(3) True, of y] by (simp add: ymd2ord_def)
      moreover have "1 \<le> days_in_month y (m + 1)"
        using days_in_month_ge_28(1)[of "m + 1" y] v(3) True by simp
      ultimately show ?thesis
        using v True by (intro exI[of _ y] exI[of _ "m + 1"] exI[of _ 1]) simp
    next
      case False
      with v(4) have m12: "m = 12" by simp
      then have d31: "d = 31" using dl by (simp add: days_in_month_def DAYS_IN_MONTH_def)
      have i: "i = days_before_year (y + 1)"
        using o m12 d31 days_before_month_12[of y] by (simp add: ymd2ord_def days_before_year_succ)
      have "y \<noteq> 9999"
      proof
        assume "y = 9999"
        with i have "i = 3652059" by (simp add: days_before_year_10000)
        with step.prems show False by (simp add: MAXORDINAL_def)
      qed
      with v(2) have y: "y + 1 \<le> 9999" by simp
      have "ymd2ord (y + 1) 1 1 = i + 1"
        using i by (simp add: ymd2ord_def days_before_month_def DAYS_BEFORE_MONTH_def)
      moreover have "(1::int) \<le> days_in_month (y + 1) 1"
        by (simp add: days_in_month_def DAYS_IN_MONTH_def)
      ultimately show ?thesis
        using v(1) y by (intro exI[of _ "y + 1"] exI[of _ 1]) simp
    qed
  qed
qed

text \<open>Every ordinal in range is the ordinal of the valid date \<open>ord2ymd\<close> gives for it.\<close>

lemma ord2ymd_valid:
  assumes "1 \<le> n" "n \<le> MAXORDINAL"
  shows "1 \<le> year (ord2ymd n)" "year (ord2ymd n) \<le> 9999"
    "1 \<le> month (ord2ymd n)" "month (ord2ymd n) \<le> 12"
    "1 \<le> day (ord2ymd n)" "day (ord2ymd n) \<le> days_in_month (year (ord2ymd n)) (month (ord2ymd n))"
    "toordinal (ord2ymd n) = n"
proof -
  from ordinal_has_date[OF assms] obtain y m d where v: "1 \<le> y" "y \<le> 9999" "1 \<le> m" "m \<le> 12"
    "1 \<le> d" "d \<le> days_in_month y m" and o: "ymd2ord y m d = n"
    by blast
  have e: "ord2ymd n = \<lparr>year = y, month = m, day = d\<rparr>"
    using ord2ymd_ymd2ord[OF v(1,3,4,5,6)] o by simp
  show "1 \<le> year (ord2ymd n)" "year (ord2ymd n) \<le> 9999"
    "1 \<le> month (ord2ymd n)" "month (ord2ymd n) \<le> 12"
    "1 \<le> day (ord2ymd n)" "day (ord2ymd n) \<le> days_in_month (year (ord2ymd n)) (month (ord2ymd n))"
    "toordinal (ord2ymd n) = n"
    using v o by (simp_all add: e toordinal_def)
qed


section \<open>Evaluating the scans on concrete inputs\<close>

lemma next_scan_hit:
  "date_add_days probe k = Inr cur \<Longrightarrow> is_recurring_date_match tz n cur = Inr True \<Longrightarrow>
   local_datetime_to_ms tz cur hour minute = Inr due \<Longrightarrow> reference_ms \<le> due \<Longrightarrow>
   \<not> is_monthly_due_skipped n due \<Longrightarrow>
   next_scan tz n reference_ms hour minute probe (k # rest) = Inr (Some due)"
  by simp

lemma next_scan_early:
  "date_add_days probe k = Inr cur \<Longrightarrow> is_recurring_date_match tz n cur = Inr True \<Longrightarrow>
   local_datetime_to_ms tz cur hour minute = Inr due \<Longrightarrow> due < reference_ms \<Longrightarrow>
   next_scan tz n reference_ms hour minute probe (k # rest)
     = next_scan tz n reference_ms hour minute probe rest"
  by simp

lemma next_scan_miss:
  "date_add_days probe k = Inr cur \<Longrightarrow> is_recurring_date_match tz n cur = Inr False \<Longrightarrow>
   next_scan tz n reference_ms hour minute probe (k # rest)
     = next_scan tz n reference_ms hour minute probe rest"
  by simp

lemma previous_scan_hit:
  "date_add_days probe (- k) = Inr cur \<Longrightarrow> is_recurring_date_match tz n cur = Inr True \<Longrightarrow>
   local_datetime_to_ms tz cur hour minute = Inr due \<Longrightarrow> due \<le> reference_ms \<Longrightarrow>
   previous_scan tz n reference_ms hour minute probe (k # rest) = Inr (Some due)"
  by simp

lemma previous_scan_late:
  "date_add_days probe (- k) = Inr cur \<Longrightarrow> is_recurring_date_match tz n cur = Inr True \<Longrightarrow>
   local_datetime_to_ms tz cur hour minute = Inr due \<Longrightarrow> reference_ms < due \<Longrightarrow>
   previous_scan tz n reference_ms hour minute probe (k # rest)
     = previous_scan tz n reference_ms hour minute probe rest"
  by simp

lemma previous_scan_miss:
  "date_add_days probe (- k) = Inr cur \<Longrightarrow> is_recurring_date_match tz n cur = Inr False \<Longrightarrow>
   previous_scan tz n reference_ms hour minute probe (k # rest)
     = previous_scan tz n reference_ms hour minute probe rest"
  by simp

lemma scan_offsets: "[0 .. 366 * 6 + 1 - 1] = 0 # 1 # [2 .. 2196]"
  by (simp add: upto_rec1)

text \<open>A reminder configured like \<open>daily_nag\<close> matches every date of a month that has an end.\<close>

lemma every_day_matches:
  assumes "mode n = NAG_MODE_MONTHLY" "recurring_pattern_type n = PATTERN_DAY_OF_MONTH"
    and "monthly_day n = None" "month_max_day (year dv) (month dv) = Inr md" "day dv \<le> md"
  shows "is_recurring_date_match tz n dv = Inr True"
  using assms by (simp add: is_recurring_date_match_def or_str_def or_int_def PATTERN_DAY_OF_MONTH_def)

lemma max_day_1970_01: "month_max_day 1970 1 = Inr 31"
  by code_simp

lemma max_day_1969_12: "month_max_day 1969 12 = Inr 31"
  by code_simp

lemma local_1970_01_01: "ms_to_local 0 0 = Inr (\<lparr>year = 1970, month = 1, day = 1\<rparr>, 0)"
  by code_simp

lemma local_1970_01_01_before_9: "ms_to_local 0 32399999 = Inr (\<lparr>year = 1970, month = 1, day = 1\<rparr>, 32399999)"
  by code_simp

lemma add_0_1970_01_01:
  "date_add_days \<lparr>year = 1970, month = 1, day = 1\<rparr> 0 = Inr \<lparr>year = 1970, month = 1, day = 1\<rparr>"
  by code_simp

lemma sub_0_1970_01_01:
  "date_add_days \<lparr>year = 1970, month = 1, day = 1\<rparr> (- 0) = Inr \<lparr>year = 1970, month = 1, day = 1\<rparr>"
  by code_simp

lemma sub_1_1970_01_01:
  "date_add_days \<lparr>year = 1970, month = 1, day = 1\<rparr> (- 1) = Inr \<lparr>year = 1969, month = 12, day = 31\<rparr>"
  by code_simp

lemma nine_1970_01_01:
  "local_datetime_to_ms 0 \<lparr>year = 1970, month = 1, day = 1\<rparr> 9 0 = Inr 32400000"
  by code_simp

lemma nine_1969_12_31:
  "local_datetime_to_ms 0 \<lparr>year = 1969, month = 12, day = 31\<rparr> 9 0 = Inr (- 54000000)"
  by code_simp

text \<open>
  The scans on a reminder configured like \<open>daily_nag\<close>: the next occurrence is today's
  or tomorrow's, the previous one before today's is yesterday's.
\<close>

lemma daily_next_today:
  assumes "mode n = NAG_MODE_MONTHLY" "monthly_hour n = Some h" "monthly_minute n = Some mi"
    and "ms_to_local tz reference_ms = Inr (dv, t)"
    and "date_add_days dv 0 = Inr d0" "is_recurring_date_match tz n d0 = Inr True"
    and "local_datetime_to_ms tz d0 h mi = Inr due0"
    and "reference_ms \<le> due0" "due0 \<notin> set (skipped_monthly_due_epoch_ms n)"
  shows "resolve_next_recurring_base_due_ms tz n reference_ms = Inr (Some due0)"
proof -
  have "next_scan tz n reference_ms h mi dv [0 .. 366 * 6 + 1 - 1] = Inr (Some due0)"
    unfolding scan_offsets
    by (rule next_scan_hit[OF assms(5-8)]) (simp add: is_monthly_due_skipped_def assms(9))
  then show ?thesis
    by (simp add: resolve_next_recurring_base_due_ms_def assms)
qed

lemma daily_next_tomorrow:
  assumes "mode n = NAG_MODE_MONTHLY" "monthly_hour n = Some h" "monthly_minute n = Some mi"
    and "ms_to_local tz reference_ms = Inr (dv, t)"
    and "date_add_days dv 0 = Inr d0" "is_recurring_date_match tz n d0 = Inr True"
    and "local_datetime_to_ms tz d0 h mi = Inr due0" "due0 < reference_ms"
    and "date_add_days dv 1 = Inr d1" "is_recurring_date_match tz n d1 = Inr True"
    and "local_datetime_to_ms tz d1 h mi = Inr due1"
    and "reference_ms \<le> due1" "due1 \<notin> set (skipped_monthly_due_epoch_ms n)"
  shows "resolve_next_recurring_base_due_ms tz n reference_ms = Inr (Some due1)"
proof -
  have s: "\<not> is_monthly_due_skipped n due1"
    by (simp add: is_monthly_due_skipped_def assms(13))
  have "next_scan tz n reference_ms h mi dv [0 .. 366 * 6 + 1 - 1] = Inr (Some due1)"
    unfolding scan_offsets
    by (simp only: next_scan_early[OF assms(5-8)] next_scan_hit[OF assms(9-12) s])
  then show ?thesis
    by (simp add: resolve_next_recurring_base_due_ms_def assms)
qed

lemma daily_previous_yesterday:
  assumes "mode n = NAG_MODE_MONTHLY" "monthly_hour n = Some h" "monthly_minute n = Some mi"
    and "ms_to_local tz reference_ms = Inr (dv, t)"
    and "date_add_days dv (- 0) = Inr d0" "is_recurring_date_match tz n d0 = Inr True"
    and "local_datetime_to_ms tz d0 h mi = Inr due0" "reference_ms < due0"
    and "date_add_days dv (- 1) = Inr d1" "is_recurring_date_match tz n d1 = Inr True"
    and "local_datetime_to_ms tz d1 h mi = Inr due1" "due1 \<le> reference_ms"
  shows "resolve_previous_recurring_base_due_ms tz n reference_ms = Inr (Some due1)"
proof -
  have "previous_scan tz n reference_ms h mi dv [0 .. 366 * 6 + 1 - 1] = Inr (Some due1)"
    unfolding scan_offsets
    by (simp only: previous_scan_late[OF assms(5-8)] previous_scan_hit[OF assms(9-12)])
  then show ?thesis
    by (simp add: resolve_previous_recurring_base_due_ms_def assms)
qed

lemma jan_1970_days:
  "date_add_days \<lparr>year = 1970, month = 1, day = 1\<rparr> 1 = Inr \<lparr>year = 1970, month = 1, day = 2\<rparr>"
  "date_add_days \<lparr>year = 1970, month = 1, day = 2\<rparr> 0 = Inr \<lparr>year = 1970, month = 1, day = 2\<rparr>"
  "date_add_days \<lparr>year = 1970, month = 1, day = 2\<rparr> (- 0) = Inr \<lparr>year = 1970, month = 1, day = 2\<rparr>"
  "date_add_days \<lparr>year = 1970, month = 1, day = 2\<rparr> (- 1) = Inr \<lparr>year = 1970, month = 1, day = 1\<rparr>"
  "date_add_days \<lparr>year = 1970, month = 1, day = 2\<rparr> 1 = Inr \<lparr>year = 1970, month = 1, day = 3\<rparr>"
  by code_simp+

lemma jan_1970_nine:
  "local_datetime_to_ms 0 \<lparr>year = 1970, month = 1, day = 2\<rparr> 9 0 = Inr 118800000"
  "local_datetime_to_ms 0 \<lparr>year = 1970, month = 1, day = 3\<rparr> 9 0 = Inr 205200000"
  by code_simp+

lemma jan_1970_local:
  "ms_to_local 0 32460000 = Inr (\<lparr>year = 1970, month = 1, day = 1\<rparr>, 32460000)"
  "ms_to_local 0 118799999 = Inr (\<lparr>year = 1970, month = 1, day = 2\<rparr>, 32399999)"
  "ms_to_local 0 118860000 = Inr (\<lparr>year = 1970, month = 1, day = 2\<rparr>, 32460000)"
  by code_simp+

lemma daily_matches:
  assumes "mode n = NAG_MODE_MONTHLY" "recurring_pattern_type n = PATTERN_DAY_OF_MONTH"
    and "monthly_day n = None"
  shows "is_recurring_date_match tz n \<lparr>year = 1969, month = 12, day = 31\<rparr> = Inr True"
    and "is_recurring_date_match tz n \<lparr>year = 1970, month = 1, day = 1\<rparr> = Inr True"
    and "is_recurring_date_match tz n \<lparr>year = 1970, month = 1, day = 2\<rparr> = Inr True"
    and "is_recurring_date_match tz n \<lparr>year = 1970, month = 1, day = 3\<rparr> = Inr True"
  by (rule every_day_matches[OF assms, where md = 31]; simp add: max_day_1970_01 max_day_1969_12)+

lemma daily_next:
  assumes "mode n = NAG_MODE_MONTHLY" "recurring_pattern_type n = PATTERN_DAY_OF_MONTH"
    and "monthly_day n = None" "monthly_hour n = Some 9" "monthly_minute n = Some 0"
    and "32400000 \<notin> set (skipped_monthly_due_epoch_ms n)"
  shows "resolve_next_recurring_base_due_ms 0 n 0 = Inr (Some 32400000)"
  by (rule daily_next_today[OF assms(1,4,5) local_1970_01_01 add_0_1970_01_01
        daily_matches(2)[OF assms(1-3)] nine_1970_01_01 _ assms(6)]) simp

lemma daily_previous:
  assumes "mode n = NAG_MODE_MONTHLY" "recurring_pattern_type n = PATTERN_DAY_OF_MONTH"
    and "monthly_day n = None" "monthly_hour n = Some 9" "monthly_minute n = Some 0"
  shows "resolve_previous_recurring_base_due_ms 0 n 32399999 = Inr (Some (- 54000000))"
  by (rule daily_previous_yesterday[OF assms(1,4,5) local_1970_01_01_before_9 sub_0_1970_01_01
        daily_matches(2)[OF assms(1-3)] nine_1970_01_01 _ sub_1_1970_01_01
        daily_matches(1)[OF assms(1-3)] nine_1969_12_31]) simp_all

lemma daily_nag_fields:
  "mode daily_nag = NAG_MODE_MONTHLY" "recurring_pattern_type daily_nag = PATTERN_DAY_OF_MONTH"
  "monthly_day daily_nag = None" "monthly_hour daily_nag = Some 9" "monthly_minute daily_nag = Some 0"
  "skipped_monthly_due_epoch_ms daily_nag = []" "created_at_epoch_ms daily_nag = 0"
  "pushed_offset_ms daily_nag = 0" "push_count daily_nag = 0" "pushed_total_ms daily_nag = 0"
  by (simp_all add: daily_nag_def NAG_MODE_MONTHLY_def PATTERN_DAY_OF_MONTH_def)

section \<open>Bounds of the forward and backward scans\<close>

lemma next_scan_ge:
  "next_scan tz n reference_ms hour minute probe ks = Inr (Some d) \<Longrightarrow> reference_ms \<le> d"
  by (induction ks) (auto split: sum.splits if_splits)

lemma previous_scan_le:
  "previous_scan tz n reference_ms hour minute probe ks = Inr (Some d) \<Longrightarrow> d \<le> reference_ms"
  by (induction ks) (auto split: sum.splits if_splits)

lemma is_recurring_date_match_skipped_update:
  "is_recurring_date_match tz (n\<lparr>skipped_monthly_due_epoch_ms := s\<rparr>) dv = is_recurring_date_match tz n dv"
  by (simp add: is_recurring_date_match_def cong: sum.case_cong if_cong)

lemma previous_scan_skipped_update:
  "previous_scan tz (n\<lparr>skipped_monthly_due_epoch_ms := s\<rparr>) reference_ms hour minute probe ks
     = previous_scan tz n reference_ms hour minute probe ks"
  by (induction ks) (auto simp: is_recurring_date_match_skipped_update split: sum.splits if_splits)

lemma resolve_next_ge:
  "resolve_next_recurring_base_due_ms tz n reference_ms = Inr (Some d) \<Longrightarrow> reference_ms \<le> d"
  unfolding resolve_next_recurring_base_due_ms_def
  by (auto split: if_splits option.splits sum.splits dest: next_scan_ge)

lemma resolve_previous_le:
  "resolve_previous_recurring_base_due_ms tz n reference_ms = Inr (Some d) \<Longrightarrow> d \<le> reference_ms"
  unfolding resolve_previous_recurring_base_due_ms_def
  by (auto split: if_splits option.splits sum.splits dest: previous_scan_le)

lemma resolve_previous_skipped_update:
  "resolve_previous_recurring_base_due_ms tz (n\<lparr>skipped_monthly_due_epoch_ms := s\<rparr>) reference_ms
     = resolve_previous_recurring_base_due_ms tz n reference_ms"
  unfolding resolve_previous_recurring_base_due_ms_def
  by (simp add: previous_scan_skipped_update split: option.splits sum.splits)

text \<open>
  Claim C1.  For every reminder, every time zone offset and every reference instant:
  whenever \<open>resolve_next_recurring_base_due_ms\<close> returns a due instant it is at or after
  the reference; whenever \<open>resolve_previous_recurring_base_due_ms\<close> returns one it is at
  or before the reference; and the backward scan does not read the skipped-occurrence
  list: replacing the list by any other leaves its result unchanged, so an instant in
  the list is never filtered out.  (A call that raises returns nothing.)
\<close>

theorem resolve_next_previous_bounds:
  "(\<forall>d. resolve_next_recurring_base_due_ms tz n reference_ms = Inr (Some d) \<longrightarrow> reference_ms \<le> d)
   \<and> (\<forall>d. resolve_previous_recurring_base_due_ms tz n reference_ms = Inr (Some d) \<longrightarrow> d \<le> reference_ms)
   \<and> (\<forall>skipped.
         resolve_previous_recurring_base_due_ms tz (n\<lparr>skipped_monthly_due_epoch_ms := skipped\<rparr>) reference_ms
           = resolve_previous_recurring_base_due_ms tz n reference_ms)"
  using resolve_next_ge resolve_previous_le resolve_previous_skipped_update by blast

text \<open>
  On the daily reminder: the next due from the epoch, the previous due before it, and
  the same previous due when that very instant is in the skipped list.
\<close>

theorem resolve_next_previous_bounds_witness:
  "resolve_next_recurring_base_due_ms 0 daily_nag 0 = Inr (Some 32400000)
   \<and> (0::int) \<le> 32400000
   \<and> resolve_previous_recurring_base_due_ms 0 daily_nag 32399999 = Inr (Some (- 54000000))
   \<and> (- 54000000::int) \<le> 32399999
   \<and> resolve_previous_recurring_base_due_ms 0
         (daily_nag\<lparr>skipped_monthly_due_epoch_ms := [- 54000000]\<rparr>) 32399999
       = Inr (Some (- 54000000))"
  using resolve_next_previous_bounds[of 0 daily_nag 0]
    resolve_next_previous_bounds[of 0 daily_nag 32399999]
    daily_next[of daily_nag] daily_previous[of daily_nag]
  by (simp add: daily_nag_fields)


section \<open>The range query\<close>

declare range_loop.simps [simp del]

lemma range_loop_inv:
  assumes "range_loop tz n range_end ws cursor g = Inr out"
    and "0 \<le> g" "g \<le> 600" "int (length ws) \<le> g"
    and "\<forall>w\<in>set ws. range_start \<le> due_ms w \<and> due_ms w \<le> range_end"
    and "range_start \<le> cursor"
    and "sorted_wrt (\<lambda>a b. source_due_ms a + 60000 \<le> source_due_ms b) ws"
    and "\<forall>w\<in>set ws. source_due_ms w + 60000 \<le> cursor"
  shows "int (length out) \<le> 600
     \<and> (\<forall>w\<in>set out. range_start \<le> due_ms w \<and> due_ms w \<le> range_end)
     \<and> sorted_wrt (\<lambda>a b. source_due_ms a + 60000 \<le> source_due_ms b) out"
  using assms
proof (induction tz n range_end ws cursor g arbitrary: out rule: range_loop.induct)
  case (1 tz n range_end ws cursor g)
  note eq = "1.prems"(1)[unfolded range_loop.simps[of tz n range_end ws cursor g]]
  show ?case
  proof (cases "g < 600")
    case False
    with eq have "out = ws" by simp
    with "1.prems" show ?thesis by simp
  next
    case True
    show ?thesis
    proof (cases "resolve_next_recurring_base_due_ms tz n cursor")
      case (Inl e)
      with eq True show ?thesis by simp
    next
      case (Inr r)
      show ?thesis
      proof (cases r)
        case None
        with eq True Inr have "out = ws" by simp
        with "1.prems" show ?thesis by simp
      next
        case (Some d)
        define due where "due = apply_push_offset n d"
        have dge: "cursor \<le> d"
          using Inr Some resolve_next_ge by blast
        have due_ge: "d \<le> due"
          by (simp add: due_def apply_push_offset_def)
        show ?thesis
        proof (cases "due > range_end")
          case True
          with eq \<open>g < 600\<close> Inr Some have "out = ws" by (simp add: due_def Let_def)
          with "1.prems" show ?thesis by simp
        next
          case False
          show ?thesis
          proof (cases "resolve_previous_recurring_base_due_ms tz n (d - 1)")
            case (Inl e)
            with eq \<open>g < 600\<close> Inr Some False show ?thesis by (simp add: due_def Let_def)
          next
            case prev: (Inr p)
            define w where "w = \<lparr>start_ms = max (or_int p (created_at_epoch_ms n)) (created_at_epoch_ms n),
                                  due_ms = due, source_due_ms = d\<rparr>"
            have rec: "range_loop tz n range_end (ws @ [w]) (d + 60000) (g + 1) = Inr out"
              using eq \<open>g < 600\<close> Inr Some False prev by (simp add: due_def Let_def w_def)
            have srt: "sorted_wrt (\<lambda>a b. source_due_ms a + 60000 \<le> source_due_ms b) (ws @ [w])"
              using "1.prems"(7,8) dge by (auto simp: sorted_wrt_append w_def)
            have bnd: "\<forall>x\<in>set (ws @ [w]). range_start \<le> due_ms x \<and> due_ms x \<le> range_end"
              using "1.prems"(5,6) dge due_ge False by (auto simp: w_def)
            have gap: "\<forall>x\<in>set (ws @ [w]). source_due_ms x + 60000 \<le> d + 60000"
              using "1.prems"(8) dge by (auto simp: w_def)
            have ih: "int (length out) \<le> 600
               \<and> (\<forall>w\<in>set out. range_start \<le> due_ms w \<and> due_ms w \<le> range_end)
               \<and> sorted_wrt (\<lambda>a b. source_due_ms a + 60000 \<le> source_due_ms b) out"
              apply (rule "1.IH"[OF \<open>g < 600\<close> Inr Some refl _ prev refl])
              using \<open>g < 600\<close> False "1.prems" srt bnd gap dge rec by (auto simp: due_def w_def)
            show ?thesis by (rule ih)
          qed
        qed
      qed
    qed
  qed
qed


text \<open>
  Claim C8.  \<open>range_loop\<close> is a total function (its termination is proved with the
  measure \<open>600 - guard\<close>), so the range query always ends, with an exception or a
  list.  Every list it returns has at most 600 windows, every window's pushed due
  instant lies in \<open>[range_start, range_end]\<close>, and the source due instants are strictly
  increasing: each is at least 60 seconds after the one before, because the cursor
  advances to the matched due plus 60000 ms.
\<close>

theorem range_windows_bounded:
  assumes "resolve_monthly_due_windows_in_range tz n range_start range_end = Inr ws"
  shows "length ws \<le> 600
     \<and> (\<forall>w\<in>set ws. range_start \<le> due_ms w \<and> due_ms w \<le> range_end)
     \<and> sorted_wrt (<) (map source_due_ms ws)
     \<and> sorted_wrt (\<lambda>a b. source_due_ms a + 60000 \<le> source_due_ms b) ws"
proof (cases "range_end < range_start")
  case True
  with assms show ?thesis by (simp add: resolve_monthly_due_windows_in_range_def)
next
  case False
  with assms have "range_loop tz n range_end [] range_start 0 = Inr ws"
    by (simp add: resolve_monthly_due_windows_in_range_def)
  from range_loop_inv[OF this, of range_start]
  have inv: "int (length ws) \<le> 600"
    "\<forall>w\<in>set ws. range_start \<le> due_ms w \<and> due_ms w \<le> range_end"
    "sorted_wrt (\<lambda>a b. source_due_ms a + 60000 \<le> source_due_ms b) ws"
    by simp_all
  have "sorted_wrt (\<lambda>a b. source_due_ms a < source_due_ms b) ws"
    by (rule sorted_wrt_mono_rel[OF _ inv(3)]) simp
  then have "sorted_wrt (<) (map source_due_ms ws)"
    by (simp add: sorted_wrt_map)
  with inv show ?thesis by simp
qed

lemma range_loop_step:
  assumes "g < 600" "resolve_next_recurring_base_due_ms tz n cursor = Inr (Some d)"
    and "apply_push_offset n d \<le> range_end"
    and "resolve_previous_recurring_base_due_ms tz n (d - 1) = Inr p"
  shows "range_loop tz n range_end ws cursor g
           = range_loop tz n range_end
               (ws @ [\<lparr>start_ms = max (or_int p (created_at_epoch_ms n)) (created_at_epoch_ms n),
                       due_ms = apply_push_offset n d, source_due_ms = d\<rparr>])
               (d + 60000) (g + 1)"
  using assms by (subst range_loop.simps) (simp add: Let_def)

lemma range_loop_stop:
  assumes "g < 600" "resolve_next_recurring_base_due_ms tz n cursor = Inr (Some d)"
    and "range_end < apply_push_offset n d"
  shows "range_loop tz n range_end ws cursor g = Inr ws"
  using assms by (subst range_loop.simps) (simp add: Let_def)

text \<open>The daily reminder has two occurrences with a due instant in the first 120000 seconds.\<close>

lemma daily_range:
  "resolve_monthly_due_windows_in_range 0 daily_nag 0 120000000
     = Inr [\<lparr>start_ms = 0, due_ms = 32400000, source_due_ms = 32400000\<rparr>,
            \<lparr>start_ms = 32400000, due_ms = 118800000, source_due_ms = 118800000\<rparr>]"
proof -
  note f = daily_nag_fields(1-5)
  note m = daily_matches[OF daily_nag_fields(1-3)]
  have n1: "resolve_next_recurring_base_due_ms 0 daily_nag 0 = Inr (Some 32400000)"
    by (rule daily_next[OF f]) (simp add: daily_nag_fields)
  have p1: "resolve_previous_recurring_base_due_ms 0 daily_nag (32400000 - 1) = Inr (Some (- 54000000))"
    using daily_previous[OF f] by simp
  have n2: "resolve_next_recurring_base_due_ms 0 daily_nag 32460000 = Inr (Some 118800000)"
    using daily_next_tomorrow[OF f(1,4,5) jan_1970_local(1) add_0_1970_01_01 m(2)
            nine_1970_01_01 _ jan_1970_days(1) m(3) jan_1970_nine(1)]
    by (simp add: daily_nag_fields)
  have p2: "resolve_previous_recurring_base_due_ms 0 daily_nag (118800000 - 1) = Inr (Some 32400000)"
    using daily_previous_yesterday[OF f(1,4,5) jan_1970_local(2) jan_1970_days(3) m(3) jan_1970_nine(1) _
            jan_1970_days(4) m(2) nine_1970_01_01]
    by simp
  have n3: "resolve_next_recurring_base_due_ms 0 daily_nag 118860000 = Inr (Some 205200000)"
    using daily_next_tomorrow[OF f(1,4,5) jan_1970_local(3) jan_1970_days(2) m(3) jan_1970_nine(1) _
            jan_1970_days(5) m(4) jan_1970_nine(2)]
    by (simp add: daily_nag_fields)
  let ?w1 = "\<lparr>start_ms = 0, due_ms = 32400000, source_due_ms = 32400000\<rparr>"
  let ?w2 = "\<lparr>start_ms = 32400000, due_ms = 118800000, source_due_ms = 118800000\<rparr>"
  have "range_loop 0 daily_nag 120000000 [] 0 0 = range_loop 0 daily_nag 120000000 [?w1] 32460000 1"
    using range_loop_step[OF _ n1 _ p1, of 0 120000000 "[]"]
    by (simp add: apply_push_offset_def or_int_def daily_nag_fields)
  also have "\<dots> = range_loop 0 daily_nag 120000000 [?w1, ?w2] 118860000 2"
    using range_loop_step[OF _ n2 _ p2, of 1 120000000 "[?w1]"]
    by (simp add: apply_push_offset_def or_int_def daily_nag_fields)
  also have "\<dots> = Inr [?w1, ?w2]"
    using range_loop_stop[OF _ n3, of 2 120000000 "[?w1, ?w2]"]
    by (simp add: apply_push_offset_def daily_nag_fields)
  finally show ?thesis
    by (simp add: resolve_monthly_due_windows_in_range_def)
qed

theorem range_windows_bounded_witness:
  "resolve_monthly_due_windows_in_range 0 daily_nag 0 120000000
     = Inr [\<lparr>start_ms = 0, due_ms = 32400000, source_due_ms = 32400000\<rparr>,
            \<lparr>start_ms = 32400000, due_ms = 118800000, source_due_ms = 118800000\<rparr>]
   \<and> length [\<lparr>start_ms = 0, due_ms = 32400000, source_due_ms = 32400000\<rparr>,
              \<lparr>start_ms = 32400000, due_ms = 118800000, source_due_ms = 118800000\<rparr>] \<le> 600
   \<and> (0::int) \<le> 32400000 \<and> (32400000::int) \<le> 120000000
   \<and> (0::int) \<le> 118800000 \<and> (118800000::int) \<le> 120000000
   \<and> (32400000::int) + 60000 \<le> 118800000"
  using range_windows_bounded[OF daily_range] daily_range by simp


section \<open>Pushing a due date\<close>

lemma is_recurring_date_match_push_update:
  "is_recurring_date_match tz (n\<lparr>pushed_offset_ms := a, push_count := b, pushed_total_ms := c\<rparr>) dv
     = is_recurring_date_match tz n dv"
  by (simp add: is_recurring_date_match_def cong: sum.case_cong if_cong)

lemma next_scan_push_update:
  "next_scan tz (n\<lparr>pushed_offset_ms := a, push_count := b, pushed_total_ms := c\<rparr>) reference_ms hour minute probe ks
     = next_scan tz n reference_ms hour minute probe ks"
  by (induction ks)
     (auto simp: is_recurring_date_match_push_update is_monthly_due_skipped_def split: sum.splits if_splits)

lemma previous_scan_push_update:
  "previous_scan tz (n\<lparr>pushed_offset_ms := a, push_count := b, pushed_total_ms := c\<rparr>) reference_ms hour minute probe ks
     = previous_scan tz n reference_ms hour minute probe ks"
  by (induction ks)
     (auto simp: is_recurring_date_match_push_update split: sum.splits if_splits)

lemma resolve_next_push_update:
  "resolve_next_recurring_base_due_ms tz (n\<lparr>pushed_offset_ms := a, push_count := b, pushed_total_ms := c\<rparr>) reference_ms
     = resolve_next_recurring_base_due_ms tz n reference_ms"
  unfolding resolve_next_recurring_base_due_ms_def
  by (simp add: next_scan_push_update split: option.splits sum.splits)

lemma resolve_previous_push_update:
  "resolve_previous_recurring_base_due_ms tz (n\<lparr>pushed_offset_ms := a, push_count := b, pushed_total_ms := c\<rparr>) reference_ms
     = resolve_previous_recurring_base_due_ms tz n reference_ms"
  unfolding resolve_previous_recurring_base_due_ms_def
  by (simp add: previous_scan_push_update split: option.splits sum.splits)

lemma push_offset_mono:
  "0 < p \<Longrightarrow> apply_push_offset n d
     \<le> apply_push_offset (n\<lparr>pushed_offset_ms := max 0 (pushed_offset_ms n + p), push_count := b, pushed_total_ms := c\<rparr>) d"
  by (simp add: apply_push_offset_def)

lemma resolve_next_due_ms_pushed:
  assumes "0 < p"
    and n'_def: "n' = n\<lparr>pushed_offset_ms := max 0 (pushed_offset_ms n + p), push_count := b, pushed_total_ms := c\<rparr>"
  shows "(\<forall>e. resolve_next_due_ms tz n reference_ms = Inl e \<longrightarrow> resolve_next_due_ms tz n' reference_ms = Inl e)
    \<and> (resolve_next_due_ms tz n reference_ms = Inr None \<longrightarrow> resolve_next_due_ms tz n' reference_ms = Inr None)
    \<and> (\<forall>d. resolve_next_due_ms tz n reference_ms = Inr (Some d)
           \<longrightarrow> (\<exists>d'. resolve_next_due_ms tz n' reference_ms = Inr (Some d') \<and> d \<le> d'))"
  by (auto simp: resolve_next_due_ms_def n'_def resolve_next_push_update push_offset_mono[OF assms(1)]
      split: option.splits sum.splits)

lemma resolve_due_window_pushed:
  assumes "0 < p"
    and n'_def: "n' = n\<lparr>pushed_offset_ms := max 0 (pushed_offset_ms n + p), push_count := b, pushed_total_ms := c\<rparr>"
  shows "(\<forall>e. resolve_due_window tz n reference_ms = Inl e \<longrightarrow> resolve_due_window tz n' reference_ms = Inl e)
    \<and> (resolve_due_window tz n reference_ms = Inr None \<longrightarrow> resolve_due_window tz n' reference_ms = Inr None)
    \<and> (\<forall>w. resolve_due_window tz n reference_ms = Inr (Some w)
           \<longrightarrow> (\<exists>w'. resolve_due_window tz n' reference_ms = Inr (Some w')
                     \<and> due_ms w \<le> due_ms w' \<and> start_ms w' = start_ms w \<and> source_due_ms w' = source_due_ms w))"
  by (auto simp: resolve_due_window_def resolve_current_display_monthly_due_window_def n'_def
        resolve_next_push_update resolve_previous_push_update Let_def push_offset_mono[OF assms(1)]
      split: option.splits sum.splits)

text \<open>
  Claim C9, as stated, fails for the program as shipped: \<open>VIEW_ONLY_MODE\<close> is \<open>True\<close>,
  so \<open>push_selected\<close> returns before it builds anything, and a push with a positive
  duration produces no new reminder.
\<close>

theorem push_rejected_when_view_only_counterexample:
  "VIEW_ONLY_MODE \<and> (0::int) < 5000
   \<and> push_selected VIEW_ONLY_MODE daily_nag (Some 5000) = None"
  by (simp add: VIEW_ONLY_MODE_def push_selected_def)

text \<open>
  Claim C9, amended.  When writes are enabled (\<open>VIEW_ONLY_MODE\<close> off), a push with a positive duration produces a
  reminder whose \<open>pushed_offset_ms\<close>, \<open>push_count\<close> and \<open>pushed_total_ms\<close> are each
  strictly greater than before; setting these three fields back gives the original
  reminder, so every other field is unchanged; and for every time zone and reference
  instant the resolved due instant (of \<open>resolve_next_due_ms\<close> and of the due window)
  exists for the pushed reminder exactly when it does for the original, raises the same
  exception otherwise, and is never earlier.
\<close>

theorem push_effect:
  assumes "\<not> view_only" and "0 < p"
  shows "\<exists>n'. push_selected view_only n (Some p) = Some n'
     \<and> pushed_offset_ms n < pushed_offset_ms n'
     \<and> push_count n < push_count n'
     \<and> pushed_total_ms n < pushed_total_ms n'
     \<and> n'\<lparr>pushed_offset_ms := pushed_offset_ms n, push_count := push_count n,
            pushed_total_ms := pushed_total_ms n\<rparr> = n
     \<and> (\<forall>tz reference_ms.
          (\<forall>e. resolve_next_due_ms tz n reference_ms = Inl e \<longrightarrow> resolve_next_due_ms tz n' reference_ms = Inl e)
          \<and> (resolve_next_due_ms tz n reference_ms = Inr None \<longrightarrow> resolve_next_due_ms tz n' reference_ms = Inr None)
          \<and> (\<forall>d. resolve_next_due_ms tz n reference_ms = Inr (Some d)
                 \<longrightarrow> (\<exists>d'. resolve_next_due_ms tz n' reference_ms = Inr (Some d') \<and> d \<le> d')))
     \<and> (\<forall>tz reference_ms.
          (\<forall>e. resolve_due_window tz n reference_ms = Inl e \<longrightarrow> resolve_due_window tz n' reference_ms = Inl e)
          \<and> (resolve_due_window tz n reference_ms = Inr None \<longrightarrow> resolve_due_window tz n' reference_ms = Inr None)
          \<and> (\<forall>w. resolve_due_window tz n reference_ms = Inr (Some w)
                 \<longrightarrow> (\<exists>w'. resolve_due_window tz n' reference_ms = Inr (Some w')
                           \<and> due_ms w \<le> due_ms w' \<and> start_ms w' = start_ms w
                           \<and> source_due_ms w' = source_due_ms w)))"
proof -
  define n' where "n' = n\<lparr>pushed_offset_ms := max 0 (pushed_offset_ms n + p),
                          push_count := max 0 (push_count n + 1),
                          pushed_total_ms := max 0 (pushed_total_ms n + p)\<rparr>"
  have 1: "push_selected view_only n (Some p) = Some n'"
    using assms by (simp add: push_selected_def n'_def)
  have 2: "pushed_offset_ms n < pushed_offset_ms n'" "push_count n < push_count n'"
    "pushed_total_ms n < pushed_total_ms n'"
    using assms(2) by (simp_all add: n'_def)
  have 3: "n'\<lparr>pushed_offset_ms := pushed_offset_ms n, push_count := push_count n,
              pushed_total_ms := pushed_total_ms n\<rparr> = n"
    by (simp add: n'_def)
  show ?thesis
    apply (rule exI[of _ n'])
    using 1 2 3 resolve_next_due_ms_pushed[OF assms(2) n'_def] resolve_due_window_pushed[OF assms(2) n'_def]
    by blast
qed

theorem push_effect_witness:
  "\<not> False \<and> (0::int) < 5000
   \<and> push_selected False daily_nag (Some 5000)
       = Some (daily_nag\<lparr>pushed_offset_ms := 5000, push_count := 1, pushed_total_ms := 5000\<rparr>)
   \<and> resolve_next_due_ms 0 daily_nag 0 = Inr (Some 32400000)
   \<and> resolve_next_due_ms 0
         (daily_nag\<lparr>pushed_offset_ms := 5000, push_count := 1, pushed_total_ms := 5000\<rparr>) 0
       = Inr (Some 32405000)
   \<and> (32400000::int) \<le> 32405000"
proof -
  let ?n' = "daily_nag\<lparr>pushed_offset_ms := 5000, push_count := 1, pushed_total_ms := 5000\<rparr>"
  have ps: "push_selected False daily_nag (Some 5000) = Some ?n'"
    by (simp add: push_selected_def daily_nag_fields)
  have d: "resolve_next_due_ms 0 daily_nag 0 = Inr (Some 32400000)"
    using daily_next[of daily_nag]
    by (simp add: resolve_next_due_ms_def daily_nag_fields apply_push_offset_def
          NAG_MODE_MONTHLY_def NAG_MODE_ONE_TIME_def)
  have e: "resolve_next_due_ms 0 ?n' 0 = Inr (Some 32405000)"
    using daily_next[of ?n']
    by (simp add: resolve_next_due_ms_def daily_nag_fields apply_push_offset_def
          NAG_MODE_MONTHLY_def NAG_MODE_ONE_TIME_def)
  show ?thesis
    using push_effect[of False 5000 daily_nag] ps d e by simp
qed


section \<open>The due window\<close>

text \<open>
  What the code guarantees about a due window: the source due instant is never after
  the pushed due instant, and the start is not after the source due instant for a
  one-time reminder, or when the reminder was created at or before that instant.
\<close>

lemma due_window_order:
  assumes "resolve_due_window tz n now_ms_value = Inr (Some w)"
  shows "source_due_ms w \<le> due_ms w"
    and "mode n = NAG_MODE_ONE_TIME \<or> created_at_epoch_ms n \<le> source_due_ms w
           \<Longrightarrow> start_ms w \<le> source_due_ms w"
proof -
  show "source_due_ms w \<le> due_ms w"
    using assms
    by (auto simp: resolve_due_window_def resolve_current_display_monthly_due_window_def
          apply_push_offset_def Let_def split: if_splits option.splits sum.splits)
  assume c: "mode n = NAG_MODE_ONE_TIME \<or> created_at_epoch_ms n \<le> source_due_ms w"
  show "start_ms w \<le> source_due_ms w"
  proof (cases "mode n = NAG_MODE_ONE_TIME")
    case True
    with assms show ?thesis
      by (auto simp: resolve_due_window_def split: option.splits)
  next
    case False
    with c have cr: "created_at_epoch_ms n \<le> source_due_ms w" by simp
    from assms False obtain base previous where
      nx: "resolve_next_recurring_base_due_ms tz n now_ms_value = Inr (Some base)" and
      pv: "resolve_previous_recurring_base_due_ms tz n (base - 1) = Inr previous" and
      w: "w = \<lparr>start_ms = max (or_int previous (created_at_epoch_ms n)) (created_at_epoch_ms n),
                due_ms = apply_push_offset n base, source_due_ms = base\<rparr>"
      by (auto simp: resolve_due_window_def resolve_current_display_monthly_due_window_def Let_def
            split: option.splits sum.splits)
    have "or_int previous (created_at_epoch_ms n) \<le> base"
    proof (cases previous)
      case None
      with cr w show ?thesis by (simp add: or_int_def)
    next
      case (Some q)
      with pv have "q \<le> base - 1" using resolve_previous_le by blast
      with Some cr w show ?thesis by (simp add: or_int_def)
    qed
    with cr w show ?thesis by simp
  qed
qed

text \<open>
  Claim C2.  The invariant \<open>start \<le> source_due\<close> fails for a recurring reminder whose
  creation time is after its next occurrence: the one-time branch of
  \<open>resolve_due_window\<close> clamps the start with \<open>min(created_at, base_due)\<close>, the monthly
  branch takes \<open>max(previous_base, created_at)\<close> and does not.  For the daily 09:00
  reminder created on 1970-01-02 and resolved at the epoch, the window starts at
  86400000 and its source due instant is 32400000.
\<close>

theorem monthly_window_starts_after_source_due:
  "resolve_due_window 0 (daily_nag\<lparr>created_at_epoch_ms := 86400000\<rparr>) 0
     = Inr (Some \<lparr>start_ms = 86400000, due_ms = 32400000, source_due_ms = 32400000\<rparr>)
   \<and> \<not> (86400000::int) \<le> 32400000"
proof -
  let ?n = "daily_nag\<lparr>created_at_epoch_ms := 86400000\<rparr>"
  have nx: "resolve_next_recurring_base_due_ms 0 ?n 0 = Inr (Some 32400000)"
    by (rule daily_next) (simp_all add: daily_nag_fields)
  have pv: "resolve_previous_recurring_base_due_ms 0 ?n 32399999 = Inr (Some (- 54000000))"
    by (rule daily_previous) (simp_all add: daily_nag_fields)
  show ?thesis
    by (simp add: resolve_due_window_def resolve_current_display_monthly_due_window_def nx pv
          or_int_def apply_push_offset_def daily_nag_fields NAG_MODE_MONTHLY_def NAG_MODE_ONE_TIME_def)
qed


section \<open>The percent label\<close>

lemma round_percent_bounds:
  assumes "0 \<le> a" "a \<le> b" "0 < b"
  shows "\<exists>p. round_percent a b = Inr p \<and> 0 \<le> p \<and> p \<le> 100"
proof -
  obtain m1 e1 where q: "round_double a b = (m1, e1)" "e1 \<le> 0" "0 \<le> m1" "m1 \<le> 1 * 2 ^ nat (- e1)"
    using round_double_le[of a b 1] assms by auto
  have td: "true_divide a b = Inr (m1, e1)"
    using q(1,2) by (simp add: true_divide_def double_overflows_def)
  obtain m2 e2 where p: "times_100 (m1, e1) = (m2, e2)" "e2 \<le> 0" "0 \<le> m2" "m2 \<le> 100 * 2 ^ nat (- e2)"
  proof (cases "e1 = 0")
    case True
    with q(4) have "100 * m1 \<le> 100 * 1" by simp
    then obtain m e where "round_double (100 * m1) 1 = (m, e)" "e \<le> 0" "0 \<le> m" "m \<le> 100 * 2 ^ nat (- e)"
      using round_double_le[of "100 * m1" 1 100] q(3) by auto
    with True that show ?thesis by (simp add: times_100_def)
  next
    case False
    with q(2) have neg: "\<not> 0 \<le> e1" by simp
    have "100 * m1 \<le> 100 * 2 ^ nat (- e1)" using q(4) by simp
    then obtain m e where "round_double (100 * m1) (2 ^ nat (- e1)) = (m, e)" "e \<le> 0" "0 \<le> m"
        "m \<le> 100 * 2 ^ nat (- e)"
      using round_double_le[of "100 * m1" "2 ^ nat (- e1)" 100] q(3) by auto
    with neg that show ?thesis by (simp add: times_100_def)
  qed
  have no: "\<not> double_overflows (m2, e2)"
    using p(2) by (simp add: double_overflows_def)
  have "\<exists>r. py_round (m2, e2) = Inr r \<and> 0 \<le> r \<and> r \<le> 100"
  proof (cases "e2 = 0")
    case True
    with p(3,4) no show ?thesis by (simp add: py_round_def)
  next
    case False
    with p(2) have neg: "\<not> 0 \<le> e2" by simp
    have "round_half_even m2 (2 ^ nat (- e2)) \<le> 100"
      using p(4) by (intro round_half_even_le) simp_all
    moreover have "0 \<le> round_half_even m2 (2 ^ nat (- e2))"
      using p(3) by (intro round_half_even_nonneg) simp_all
    ultimately show ?thesis using no neg by (simp add: py_round_def)
  qed
  then show ?thesis
    by (simp add: round_percent_def td p(1))
qed

text \<open>Before the due instant the percent is clamped to \<open>[0, 100]\<close>, and nothing raises.\<close>

lemma progress_percent_before_due:
  assumes "now_ms_value \<le> due"
  shows "\<exists>p. progress_percent now_ms_value start due lateness = Inr p \<and> 0 \<le> p \<and> p \<le> 100"
  using assms round_percent_bounds[of "max 0 (min (max 1 (due - start)) (now_ms_value - start))" "max 1 (due - start)"]
  by (simp add: progress_percent_def Let_def)

text \<open>
  Claim C3.  The overdue branch of \<open>progress_percent_label\<close> has no upper clamp (the
  branch before due takes \<open>min(denominator, ...)\<close>, and \<open>progress_fraction\<close> clamps both):
  two days past due with a lateness window of one day, the label is 200%.
\<close>

theorem overdue_percent_label_exceeds_100:
  "progress_percent_label 172801000 0 1000 1 = Inr ''200%''
   \<and> progress_percent 172801000 0 1000 1 = Inr 200 \<and> \<not> (200::int) \<le> 100"
  by code_simp


section \<open>The Smart sort\<close>

lemma sort_keys_all2:
  "sort_keys f es = Inr ks \<Longrightarrow> list_all2 (\<lambda>e k. f e = Inr k) es ks"
  by (induction es arbitrary: ks) (auto split: sum.splits)

lemma key4_le:
  "[r, w, d, c] \<le> [r', w', d', c'] \<longleftrightarrow>
     r < r' \<or> (r = r' \<and> (w < w' \<or> (w = w' \<and> (d < d' \<or> (d = d' \<and> c \<le> (c'::int))))))"
  by auto

lemma sorted_wrt_map_snd_zip:
  assumes "list_all2 (\<lambda>e k. f e = Inr k) es ks"
  shows "sorted_wrt (\<lambda>a b. \<exists>ka kb. f a = Inr ka \<and> f b = Inr kb \<and> ka \<le> kb)
           (map snd (sort_key fst (zip ks es)))"
proof -
  let ?zs = "sort_key fst (zip ks es)"
  have s: "sorted (map fst ?zs)" by (rule sorted_sort_key)
  have "f (es ! i) = Inr (ks ! i)" if "i < length es" for i
    using list_all2_nthD[OF assms that] .
  moreover have "length es = length ks"
    using assms by (simp add: list_all2_lengthD)
  ultimately have m: "\<forall>z\<in>set ?zs. f (snd z) = Inr (fst z)"
    by (auto simp: in_set_zip)
  have o: "sorted_wrt (\<lambda>x y. fst x \<le> fst y) ?zs"
    using s by (simp add: sorted_wrt_map)
  have "sorted_wrt (\<lambda>x y. \<exists>ka kb. f (snd x) = Inr ka \<and> f (snd y) = Inr kb \<and> ka \<le> kb) ?zs"
  proof (rule sorted_wrt_mono_rel[OF _ o])
    fix x y
    assume "x \<in> set ?zs" "y \<in> set ?zs" "fst x \<le> fst y"
    then show "\<exists>ka kb. f (snd x) = Inr ka \<and> f (snd y) = Inr kb \<and> ka \<le> kb"
      using m by blast
  qed
  then show ?thesis by (simp add: sorted_wrt_map)
qed

lemma mset_map_snd_sort_zip:
  assumes "length ks = length es"
  shows "mset (map snd (sort_key fst (zip ks es))) = mset es"
proof -
  have "mset (map snd (sort_key fst (zip ks es))) = image_mset snd (mset (sort_key fst (zip ks es)))"
    by simp
  also have "\<dots> = image_mset snd (mset (zip ks es))" by simp
  also have "\<dots> = mset (map snd (zip ks es))" by simp
  also have "\<dots> = mset es" using assms by simp
  finally show ?thesis .
qed

lemma smart_rank_cases:
  "(smart_status_rank due now_ms_value = 0 \<longleftrightarrow> due \<noteq> max_long \<and> due < now_ms_value)
   \<and> (smart_status_rank due now_ms_value = 1 \<longleftrightarrow>
        due \<noteq> max_long \<and> now_ms_value \<le> due \<and> due - now_ms_value \<le> 14 * 86400000)
   \<and> (smart_status_rank due now_ms_value = 2 \<longleftrightarrow>
        due \<noteq> max_long \<and> 14 * 86400000 < due - now_ms_value)
   \<and> (smart_status_rank due now_ms_value = 3 \<longleftrightarrow> due = max_long)"
  by (simp add: smart_status_rank_def max_long_def PRE_DUE_COLOR_WINDOW_DAYS_def)

lemma sort_two_entries: "sort_entries 0 [entry_a, entry_b] SORT_SMART 50 = Inr [entry_b, entry_a]"
  by code_simp

text \<open>
  Claim C6, as stated, fails at \<open>due = reference\<close>: the code ranks an entry overdue
  only when \<open>now_ms_value > due_ms\<close>, so an entry due exactly at the reference has rank
  1, not 0.
\<close>

theorem smart_rank_boundary_counterexample:
  "\<not> (smart_status_rank 5 5 = 0 \<longleftrightarrow> (5::int) \<le> 5)"
  by (simp add: smart_status_rank_def PRE_DUE_COLOR_WINDOW_DAYS_def)

text \<open>
  Claim C6, amended.  The status rank is 0 exactly when the due instant is strictly
  before the reference, 1 exactly when it is at or after the reference and at most 14
  days ahead, 2 exactly when it is more than 14 days ahead, and 3 exactly when the due
  value is \<open>2^63 - 1\<close>, which stands for no due instant.  Whenever the Smart sort
  returns, its result is a permutation of the entries in which every entry precedes
  every later one by (rank, descending weight, ascending due, ascending creation time).
\<close>

theorem smart_sort:
  "(smart_status_rank due now_ms_value = 0 \<longleftrightarrow> due \<noteq> max_long \<and> due < now_ms_value)
   \<and> (smart_status_rank due now_ms_value = 1 \<longleftrightarrow>
        due \<noteq> max_long \<and> now_ms_value \<le> due \<and> due - now_ms_value \<le> 14 * 86400000)
   \<and> (smart_status_rank due now_ms_value = 2 \<longleftrightarrow>
        due \<noteq> max_long \<and> 14 * 86400000 < due - now_ms_value)
   \<and> (smart_status_rank due now_ms_value = 3 \<longleftrightarrow> due = max_long)
   \<and> (\<forall>sorted_entries. sort_entries tz entries SORT_SMART now_ms_value = Inr sorted_entries \<longrightarrow>
         mset sorted_entries = mset entries
         \<and> sorted_wrt (smart_precedes tz now_ms_value) sorted_entries)"
proof -
  have "mset out = mset entries \<and> sorted_wrt (smart_precedes tz now_ms_value) out"
    if a: "sort_entries tz entries SORT_SMART now_ms_value = Inr out" for out
  proof -
    let ?f = "sort_key_of tz SORT_SMART now_ms_value"
    from a obtain ks where ks: "sort_keys ?f entries = Inr ks"
      and out: "out = map snd (sort_key fst (zip ks entries))"
      by (auto simp: sort_entries_def split: sum.splits)
    have all2: "list_all2 (\<lambda>e k. ?f e = Inr k) entries ks"
      by (rule sort_keys_all2[OF ks])
    then have len: "length ks = length entries"
      by (simp add: list_all2_lengthD)
    have imp: "smart_precedes tz now_ms_value x y"
      if "\<exists>ka kb. ?f x = Inr ka \<and> ?f y = Inr kb \<and> ka \<le> kb" for x y
      using that
      by (auto simp: sort_key_of_def smart_precedes_def SORT_SMART_def SORT_WEIGHT_def SORT_DUE_def
            Let_def split: sum.splits)
    have "sorted_wrt (smart_precedes tz now_ms_value) out"
      unfolding out
      by (rule sorted_wrt_mono_rel[OF _ sorted_wrt_map_snd_zip[OF all2]]) (use imp in blast)
    then show ?thesis
      using mset_map_snd_sort_zip[OF len] out by simp
  qed
  then show ?thesis
    using smart_rank_cases[of due now_ms_value] by blast
qed


theorem smart_sort_witness:
  "sort_entries 0 [entry_a, entry_b] SORT_SMART 50 = Inr [entry_b, entry_a]
   \<and> smart_status_rank 5 50 = 0 \<and> smart_status_rank 100 50 = 1
   \<and> mset [entry_b, entry_a] = mset [entry_a, entry_b]
   \<and> smart_precedes 0 50 entry_b entry_a"
  using smart_sort[of 5 50 0 "[entry_a, entry_b]"] smart_sort[of 100 50 0 "[entry_a, entry_b]"] sort_two_entries
  by (simp add: max_long_def)


section \<open>The skipped-occurrence list\<close>

lemma bind_SomeE:
  assumes "Option.bind m f = Some y" and "\<And>x. f x = Some y \<Longrightarrow> P"
  shows P
  using assms by (cases m) auto

lemma from_payload_skipped_form:
  assumes "from_payload lib now_ms_value payload = Some n"
  shows "\<exists>xs. skipped_monthly_due_epoch_ms n = sorted_list_of_set (set xs)"
proof (cases "strip (py_str lib (dict_get payload ''workName'' (JStr []))) = []
            \<or> strip (py_str lib (dict_get payload ''nagText'' (JStr []))) = []")
  case True
  with assms show ?thesis by (simp add: from_payload_def Let_def)
next
  case False
  from assms show ?thesis
    unfolding from_payload_def Let_def
    apply (simp only: False if_False)
    apply (erule bind_SomeE)+
    apply (simp only: option.inject)
    apply (erule subst)
    apply (simp only: nag.simps)
    apply (rule exI, rule refl)
    done
qed

lemma from_payload_skipped:
  assumes "from_payload lib now_ms_value payload = Some n"
  shows "sorted (skipped_monthly_due_epoch_ms n) \<and> distinct (skipped_monthly_due_epoch_ms n)"
  using from_payload_skipped_form[OF assms] by auto

lemma complete_occurrence_skipped:
  assumes "complete_selected_occurrence view_only n entry_due_window = Some n'"
  shows "sorted (skipped_monthly_due_epoch_ms n')"
    and "distinct (skipped_monthly_due_epoch_ms n')"
    and "length (skipped_monthly_due_epoch_ms n') \<le> 200"
proof -
  from assms obtain w where w: "entry_due_window = Some w"
    by (cases entry_due_window) (auto simp: complete_selected_occurrence_def split: if_splits)
  define merged where
    "merged = sorted_list_of_set (set (skipped_monthly_due_epoch_ms n @ [source_due_ms w]))"
  have m: "sorted merged" "distinct merged"
    unfolding merged_def by (rule sorted_sorted_list_of_set, rule distinct_sorted_list_of_set)
  have "n' = n\<lparr>skipped_monthly_due_epoch_ms := drop (length merged - 200) merged\<rparr>"
    using assms unfolding complete_selected_occurrence_def Let_def w merged_def
    by (simp split: if_splits)
  then have s: "skipped_monthly_due_epoch_ms n' = drop (length merged - 200) merged"
    by simp
  show "sorted (skipped_monthly_due_epoch_ms n')"
    unfolding s using m(1) by (rule sorted_wrt_drop)
  show "distinct (skipped_monthly_due_epoch_ms n')"
    unfolding s using m(2) by simp
  show "length (skipped_monthly_due_epoch_ms n') \<le> 200"
    unfolding s by simp
qed

text \<open>
  The completion keeps the latest entries: whatever it drops from the merged list is
  earlier than everything it keeps.
\<close>

lemma drop_sorted_keeps_latest:
  assumes "sorted xs" "distinct xs" "x \<in> set (take k xs)" "y \<in> set (drop k xs)"
  shows "x < (y::int)"
proof -
  have "sorted (take k xs @ drop k xs)" "distinct (take k xs @ drop k xs)"
    using assms(1,2) by simp_all
  then have "x \<le> y" "x \<noteq> y"
    using assms(3,4) unfolding sorted_append distinct_append by auto
  then show ?thesis by simp
qed

text \<open>
  Claim C4.  The complete-occurrence update yields a sorted, duplicate-free list of at
  most 200 entries (\<open>complete_occurrence_skipped\<close>), and \<open>from_payload\<close> yields a sorted,
  duplicate-free list (\<open>from_payload_skipped\<close>); but \<open>from_payload\<close> has no cap: a
  payload that lists 201 distinct skipped occurrences yields a reminder with 201.
\<close>

theorem from_payload_keeps_201_skipped:
  "map_option (length \<circ> skipped_monthly_due_epoch_ms) (from_payload plain_lib 0 long_skipped_payload)
     = Some 201
   \<and> \<not> (201::nat) \<le> 200"
  by code_simp


section \<open>Replaying the event log\<close>

lemma sort_key_same_ties:
  assumes "mset xs = mset ys"
    and "\<And>k. filter (\<lambda>x. f x = k) xs = filter (\<lambda>x. f x = k) ys"
  shows "sort_key f xs = sort_key f ys"
proof (rule properties_for_sort_key)
  show "mset (sort_key f ys) = mset xs" using assms(1) by simp
  show "sorted (map f (sort_key f ys))" by simp
  fix k assume "k \<in> set (sort_key f ys)"
  have "filter (\<lambda>x. f k = f x) (sort_key f ys) = filter (\<lambda>x. f x = f k) (sort_key f ys)"
    by (rule filter_cong) auto
  also have "\<dots> = filter (\<lambda>x. f x = f k) ys" by (rule sort_key_stable)
  also have "\<dots> = filter (\<lambda>x. f x = f k) xs" by (rule assms(2)[symmetric])
  also have "\<dots> = filter (\<lambda>x. f k = f x) xs" by (rule filter_cong) auto
  finally show "filter (\<lambda>x. f k = f x) (sort_key f ys) = filter (\<lambda>x. f k = f x) xs" .
qed

lemma rebuild_first_second:
  "map_option nag_text
     (current (rebuild_current_nags_from_events plain_lib (\<lambda>_. 0) [row_first, row_second]) ''w'')
     = Some ''second''"
  by code_simp

lemma rebuild_second_first:
  "map_option nag_text
     (current (rebuild_current_nags_from_events plain_lib (\<lambda>_. 0) [row_second, row_first]) ''w'')
     = Some ''first''"
  by code_simp

lemma row_keys:
  "created_at_key plain_lib row_first = ''2024-01-01T00:00:00+00:00''"
  "created_at_key plain_lib row_second = ''2024-01-01T00:00:00+00:00''"
  "created_at_key plain_lib row_later = ''2024-01-02T00:00:00+00:00''"
  by code_simp+

text \<open>
  Claim C5, as stated, fails for rows with equal \<open>created_at\<close>: \<open>sorted\<close> is stable, so
  such rows are replayed in their input order, and two rows for the same reminder give
  a different final map when swapped.  Both input orders are ascending in
  \<open>created_at\<close>.
\<close>

theorem rebuild_tie_counterexample:
  "mset [row_first, row_second] = mset [row_second, row_first]
   \<and> sorted (map (created_at_key plain_lib) [row_first, row_second])
   \<and> sorted (map (created_at_key plain_lib) [row_second, row_first])
   \<and> current (rebuild_current_nags_from_events plain_lib (\<lambda>_. 0) [row_first, row_second])
       \<noteq> current (rebuild_current_nags_from_events plain_lib (\<lambda>_. 0) [row_second, row_first])"
proof -
  have "current (rebuild_current_nags_from_events plain_lib (\<lambda>_. 0) [row_first, row_second])
          \<noteq> current (rebuild_current_nags_from_events plain_lib (\<lambda>_. 0) [row_second, row_first])"
  proof
    assume "current (rebuild_current_nags_from_events plain_lib (\<lambda>_. 0) [row_first, row_second])
              = current (rebuild_current_nags_from_events plain_lib (\<lambda>_. 0) [row_second, row_first])"
    with rebuild_first_second rebuild_second_first show False by simp
  qed
  then show ?thesis by (simp add: row_keys add_mset_commute)
qed

text \<open>
  Claim C5, amended.  Two input orders of the same rows in which rows with equal
  \<open>created_at\<close> keys appear in the same relative order are replayed to the same final
  state (reminder map and counters), given the same clock readings for payloads that
  lack \<open>createdAtEpochMillis\<close>.  In particular this holds for any two orders when the
  keys are pairwise distinct.
\<close>

theorem rebuild_order_independent:
  assumes "mset events1 = mset events2"
    and "\<forall>k. filter (\<lambda>e. created_at_key lib e = k) events1 = filter (\<lambda>e. created_at_key lib e = k) events2"
  shows "rebuild_current_nags_from_events lib clock events1
           = rebuild_current_nags_from_events lib clock events2"
  using sort_key_same_ties[OF assms(1), of "created_at_key lib"] assms(2)
  by (simp add: rebuild_current_nags_from_events_def)

lemma rebuild_order_independent_distinct:
  assumes "mset events1 = mset events2" "distinct (map (created_at_key lib) events1)"
  shows "rebuild_current_nags_from_events lib clock events1
           = rebuild_current_nags_from_events lib clock events2"
proof -
  have d2: "distinct (map (created_at_key lib) events2)"
    using assms by (metis mset_eq_imp_distinct_iff mset_map)
  have inj: "inj_on (created_at_key lib) (set events1)" "inj_on (created_at_key lib) (set events2)"
    using assms(2) d2 by (simp_all add: distinct_map)
  have s: "set events1 = set events2" using assms(1) by (rule mset_eq_setD)
  have "sort_key (created_at_key lib) events1 = sort_key (created_at_key lib) events2"
  proof (rule map_sorted_distinct_set_unique[where f = "created_at_key lib"])
    show "inj_on (created_at_key lib)
            (set (sort_key (created_at_key lib) events1) \<union> set (sort_key (created_at_key lib) events2))"
      using inj s by simp
    show "distinct (map (created_at_key lib) (sort_key (created_at_key lib) events1))"
      using assms(2) by (simp add: distinct_map inj(1))
    show "distinct (map (created_at_key lib) (sort_key (created_at_key lib) events2))"
      using d2 by (simp add: distinct_map inj(2))
  qed (simp_all add: s)
  then show ?thesis by (simp add: rebuild_current_nags_from_events_def)
qed

theorem rebuild_order_independent_witness:
  "mset [row_first, row_second, row_later] = mset [row_later, row_first, row_second]
   \<and> created_at_key plain_lib row_first = created_at_key plain_lib row_second
   \<and> created_at_key plain_lib row_later \<noteq> created_at_key plain_lib row_first
   \<and> rebuild_current_nags_from_events plain_lib (\<lambda>_. 0) [row_first, row_second, row_later]
       = rebuild_current_nags_from_events plain_lib (\<lambda>_. 0) [row_later, row_first, row_second]"
proof -
  have m: "mset [row_first, row_second, row_later] = mset [row_later, row_first, row_second]"
    by (simp add: add_mset_commute)
  have f: "\<forall>k. filter (\<lambda>e. created_at_key plain_lib e = k) [row_first, row_second, row_later]
             = filter (\<lambda>e. created_at_key plain_lib e = k) [row_later, row_first, row_second]"
    by (simp add: row_keys)
  show ?thesis
    using rebuild_order_independent[OF m f, of "\<lambda>_. 0"] m by (simp add: row_keys)
qed


section \<open>Unrecognised recurrence patterns\<close>

lemma unrecognized_never_matches:
  assumes "mode n = NAG_MODE_MONTHLY" "recurring_pattern_type n \<notin> set PATTERN_OPTIONS"
    and "recurring_pattern_type n \<noteq> []"
  shows "is_recurring_date_match tz n dv =
           (case month_max_day (year dv) (month dv) of Inl e \<Rightarrow> Inl e | Inr max_day \<Rightarrow> Inr False)"
  using assms
  by (simp add: is_recurring_date_match_def or_str_def PATTERN_OPTIONS_def Let_def
      cong: sum.case_cong)

lemma december_9999_ordinal:
  assumes "1 \<le> d"
  shows "MAXORDINAL - 31 < ymd2ord 9999 12 d"
  using assms
  by (simp add: ymd2ord_def days_before_year_def days_before_month_def DAYS_BEFORE_MONTH_def
        is_leap_def MAXORDINAL_def)

lemma scan_date_ok:
  assumes "toordinal probe = ordinal" "1 \<le> ordinal + k" "ordinal + k \<le> MAXORDINAL - 31"
  shows "\<exists>cur md. date_add_days probe k = Inr cur
           \<and> month_max_day (year cur) (month cur) = Inr md
           \<and> py_date (year cur) (month cur) (day cur) = Inr cur"
proof -
  have r: "1 \<le> ordinal + k" "ordinal + k \<le> MAXORDINAL"
    using assms(2,3) by (simp_all add: MAXORDINAL_def)
  define cur where "cur = ord2ymd (ordinal + k)"
  note v = ord2ymd_valid[OF r, folded cur_def]
  have a: "date_add_days probe k = Inr cur"
    using r by (simp add: date_add_days_def assms(1) cur_def Let_def)
  have nd: "\<not> (year cur = 9999 \<and> month cur = 12)"
  proof
    assume h: "year cur = 9999 \<and> month cur = 12"
    have "MAXORDINAL - 31 < ymd2ord 9999 12 (day cur)"
      by (rule december_9999_ordinal[OF v(5)])
    also have "\<dots> = toordinal cur" using h by (simp add: toordinal_def)
    finally show False using v(7) assms(3) by simp
  qed
  have "month_max_day (year cur) (month cur) = Inr (days_in_month (year cur) (month cur))"
    by (rule month_max_day_eq[OF v(1-4) nd])
  moreover have "py_date (year cur) (month cur) (day cur) = Inr cur"
    using v(1-6) by (simp add: py_date_def MINYEAR_def MAXYEAR_def)
  ultimately show ?thesis using a by blast
qed

lemma next_scan_unrecognized:
  assumes "mode n = NAG_MODE_MONTHLY" "recurring_pattern_type n \<notin> set PATTERN_OPTIONS"
    and "recurring_pattern_type n \<noteq> []"
    and "toordinal probe = ordinal"
    and "\<forall>k\<in>set ks. 1 \<le> ordinal + k \<and> ordinal + k \<le> MAXORDINAL - 31"
  shows "next_scan tz n reference_ms hour minute probe ks = Inr None"
  using assms(5)
proof (induction ks)
  case Nil
  show ?case by simp
next
  case (Cons k ks)
  from Cons.prems have "1 \<le> ordinal + k" "ordinal + k \<le> MAXORDINAL - 31" by simp_all
  from scan_date_ok[OF assms(4) this] obtain cur md where
    c: "date_add_days probe k = Inr cur" "month_max_day (year cur) (month cur) = Inr md"
    by blast
  have "is_recurring_date_match tz n cur = Inr False"
    unfolding unrecognized_never_matches[OF assms(1-3)] c(2) by simp
  with c(1) Cons show ?case by simp
qed

lemma previous_scan_unrecognized:
  assumes "mode n = NAG_MODE_MONTHLY" "recurring_pattern_type n \<notin> set PATTERN_OPTIONS"
    and "recurring_pattern_type n \<noteq> []"
    and "toordinal probe = ordinal"
    and "\<forall>k\<in>set ks. 1 \<le> ordinal + - k \<and> ordinal + - k \<le> MAXORDINAL - 31"
  shows "previous_scan tz n reference_ms hour minute probe ks = Inr None"
  using assms(5)
proof (induction ks)
  case Nil
  show ?case by simp
next
  case (Cons k ks)
  from Cons.prems have "1 \<le> ordinal + - k" "ordinal + - k \<le> MAXORDINAL - 31" by simp_all
  from scan_date_ok[OF assms(4) this] obtain cur md where
    c: "date_add_days probe (- k) = Inr cur" "month_max_day (year cur) (month cur) = Inr md"
    by blast
  have "is_recurring_date_match tz n cur = Inr False"
    unfolding unrecognized_never_matches[OF assms(1-3)] c(2) by simp
  with c(1) Cons show ?case by simp
qed

lemma empty_pattern_matches:
  "is_recurring_date_match 0 (daily_nag\<lparr>recurring_pattern_type := []\<rparr>)
     \<lparr>year = 1970, month = 1, day = 1\<rparr> = Inr True"
  by code_simp

text \<open>
  Claim C10, as stated, fails for the empty pattern string: it is not one of the six
  patterns, and \<open>nag.recurring_pattern_type or PATTERN_DAY_OF_MONTH\<close> makes the code fall
  back to \<open>DAY_OF_MONTH\<close>, so dates match and a due instant is resolved.
\<close>

theorem empty_pattern_falls_back_counterexample:
  "mode (daily_nag\<lparr>recurring_pattern_type := []\<rparr>) = NAG_MODE_MONTHLY
   \<and> recurring_pattern_type (daily_nag\<lparr>recurring_pattern_type := []\<rparr>) \<notin> set PATTERN_OPTIONS
   \<and> is_recurring_date_match 0 (daily_nag\<lparr>recurring_pattern_type := []\<rparr>)
         \<lparr>year = 1970, month = 1, day = 1\<rparr> = Inr True
   \<and> resolve_next_recurring_base_due_ms 0 (daily_nag\<lparr>recurring_pattern_type := []\<rparr>) 0
       = Inr (Some 32400000)"
proof -
  let ?n = "daily_nag\<lparr>recurring_pattern_type := []\<rparr>"
  have "resolve_next_recurring_base_due_ms 0 ?n 0 = Inr (Some 32400000)"
    by (rule daily_next_today[OF _ _ _ local_1970_01_01 add_0_1970_01_01 empty_pattern_matches
          nine_1970_01_01])
       (simp_all add: daily_nag_fields)
  then show ?thesis
    using empty_pattern_matches
    by (simp add: daily_nag_fields PATTERN_OPTIONS_def PATTERN_DAY_OF_MONTH_def
          PATTERN_DAY_OF_WEEK_def PATTERN_NTH_WEEKDAY_def PATTERN_END_OF_MONTH_def
          PATTERN_QUARTERLY_def PATTERN_ANNUAL_def)
qed

text \<open>
  Claim C10, amended.  For every MONTHLY reminder whose \<open>recurring_pattern_type\<close> is a
  non-empty string other than the six recognised patterns: the date-match predicate
  never returns true, and returns false for every date except those of December 9999
  (where \<open>month_max_day\<close> raises); and for every reference instant whose local date is
  more than 2196 days after 0001-01-01 and at least 2196 days before 9999-11-30, next
  and previous resolution return no result and the due window is absent, with no
  exception and no fallback pattern.
\<close>

theorem unrecognized_pattern_no_result:
  assumes "mode n = NAG_MODE_MONTHLY"
    and "recurring_pattern_type n \<notin> set PATTERN_OPTIONS" "recurring_pattern_type n \<noteq> []"
    and "ms_to_local tz reference_ms = Inr (local_date, t)"
    and "2196 < toordinal local_date" "toordinal local_date + 2196 \<le> MAXORDINAL - 31"
  shows "(\<forall>y m d dv. py_date y m d = Inr dv \<and> \<not> (y = 9999 \<and> m = 12)
            \<longrightarrow> is_recurring_date_match tz n dv = Inr False)
     \<and> (\<forall>dv. is_recurring_date_match tz n dv \<noteq> Inr True)
     \<and> resolve_next_recurring_base_due_ms tz n reference_ms = Inr None
     \<and> resolve_previous_recurring_base_due_ms tz n reference_ms = Inr None
     \<and> resolve_current_display_monthly_due_window tz n reference_ms = Inr None
     \<and> resolve_due_window tz n reference_ms = Inr None"
proof -
  note u = unrecognized_never_matches[OF assms(1-3)]
  have 1: "is_recurring_date_match tz n dv = Inr False"
    if "py_date y m d = Inr dv" "\<not> (y = 9999 \<and> m = 12)" for y m d dv
  proof -
    from that(1) have v: "1 \<le> y" "y \<le> 9999" "1 \<le> m" "m \<le> 12"
      and dv: "dv = \<lparr>year = y, month = m, day = d\<rparr>"
      by (simp_all add: py_date_Inr_iff)
    show ?thesis
      unfolding u dv using month_max_day_eq[OF v that(2)] by simp
  qed
  have 2: "is_recurring_date_match tz n dv \<noteq> Inr True" for dv
    unfolding u by (simp split: sum.splits)
  have nx: "next_scan tz n reference_ms hour minute local_date [0 .. 366 * 6 + 1 - 1] = Inr None"
    for hour minute
    by (rule next_scan_unrecognized[OF assms(1-3) refl]) (use assms(5,6) in auto)
  have pv: "previous_scan tz n reference_ms hour minute local_date [0 .. 366 * 6 + 1 - 1] = Inr None"
    for hour minute
    by (rule previous_scan_unrecognized[OF assms(1-3) refl]) (use assms(5,6) in auto)
  have 3: "resolve_next_recurring_base_due_ms tz n reference_ms = Inr None"
    unfolding resolve_next_recurring_base_due_ms_def using assms(1,4) nx
    by (simp split: option.splits)
  have 4: "resolve_previous_recurring_base_due_ms tz n reference_ms = Inr None"
    unfolding resolve_previous_recurring_base_due_ms_def using assms(1,4) pv
    by (simp split: option.splits)
  have 5: "resolve_current_display_monthly_due_window tz n reference_ms = Inr None"
    unfolding resolve_current_display_monthly_due_window_def 3 by simp
  have 6: "resolve_due_window tz n reference_ms = Inr None"
    unfolding resolve_due_window_def using assms(1) 5
    by (simp add: NAG_MODE_MONTHLY_def NAG_MODE_ONE_TIME_def)
  from 1 2 3 4 5 6 show ?thesis by blast
qed

lemma toordinal_epoch: "toordinal \<lparr>year = 1970, month = 1, day = 1\<rparr> = 719163"
  by code_simp

lemma py_date_epoch: "py_date 1970 1 1 = Inr \<lparr>year = 1970, month = 1, day = 1\<rparr>"
  by code_simp

theorem unrecognized_pattern_no_result_witness:
  "mode (daily_nag\<lparr>recurring_pattern_type := ''HOURLY''\<rparr>) = NAG_MODE_MONTHLY
   \<and> ''HOURLY'' \<notin> set PATTERN_OPTIONS
   \<and> ms_to_local 0 0 = Inr (\<lparr>year = 1970, month = 1, day = 1\<rparr>, 0)
   \<and> is_recurring_date_match 0 (daily_nag\<lparr>recurring_pattern_type := ''HOURLY''\<rparr>)
         \<lparr>year = 1970, month = 1, day = 1\<rparr> = Inr False
   \<and> resolve_next_recurring_base_due_ms 0 (daily_nag\<lparr>recurring_pattern_type := ''HOURLY''\<rparr>) 0 = Inr None
   \<and> resolve_previous_recurring_base_due_ms 0 (daily_nag\<lparr>recurring_pattern_type := ''HOURLY''\<rparr>) 0 = Inr None
   \<and> resolve_due_window 0 (daily_nag\<lparr>recurring_pattern_type := ''HOURLY''\<rparr>) 0 = Inr None"
proof -
  let ?n = "daily_nag\<lparr>recurring_pattern_type := ''HOURLY''\<rparr>"
  have m: "mode ?n = NAG_MODE_MONTHLY" by (simp add: daily_nag_fields)
  have p: "recurring_pattern_type ?n \<notin> set PATTERN_OPTIONS"
    by (simp add: PATTERN_OPTIONS_def PATTERN_DAY_OF_MONTH_def
          PATTERN_DAY_OF_WEEK_def PATTERN_NTH_WEEKDAY_def PATTERN_END_OF_MONTH_def
          PATTERN_QUARTERLY_def PATTERN_ANNUAL_def)
  have e: "recurring_pattern_type ?n \<noteq> []" by simp
  have o: "2196 < toordinal \<lparr>year = 1970, month = 1, day = 1\<rparr>"
    "toordinal \<lparr>year = 1970, month = 1, day = 1\<rparr> + 2196 \<le> MAXORDINAL - 31"
    by (simp_all add: toordinal_epoch MAXORDINAL_def)
  note r = unrecognized_pattern_no_result[OF m p e local_1970_01_01 o]
  from r have a: "\<forall>y m d dv. py_date y m d = Inr dv \<and> \<not> (y = 9999 \<and> m = 12)
      \<longrightarrow> is_recurring_date_match 0 ?n dv = Inr False"
    by (rule conjunct1)
  have "py_date 1970 1 1 = Inr \<lparr>year = 1970, month = 1, day = 1\<rparr>
      \<and> \<not> ((1970::int) = 9999 \<and> (1::int) = 12)"
    using py_date_epoch by simp
  with a have f: "is_recurring_date_match 0 ?n \<lparr>year = 1970, month = 1, day = 1\<rparr> = Inr False"
    by blast
  from r have
    "resolve_next_recurring_base_due_ms 0 ?n 0 = Inr None"
    "resolve_previous_recurring_base_due_ms 0 ?n 0 = Inr None"
    "resolve_due_window 0 ?n 0 = Inr None"
    by simp_all
  with f m p local_1970_01_01 show ?thesis by simp
qed


section \<open>The Nth weekday of a month\<close>

lemma filter_upto_position:
  assumes "1 \<le> d" "d \<le> M" "P d"
  shows "filter P [1..M] = filter P [1..d - 1] @ d # filter P [d + 1..M]"
proof -
  have "[1..M] = [1..d - 1] @ d # [d + 1..M]"
    using assms(1,2) by (rule upto_split3)
  then show ?thesis using assms(3) by simp
qed

lemma filter_upto_prefix_length:
  assumes "1 \<le> d" "P d"
  shows "length (filter P [1..d]) = Suc (length (filter P [1..d - 1]))"
proof -
  have "[1..d] = [1..d - 1] @ [d]"
    using assms(1) by (simp add: upto_rec2)
  then show ?thesis using assms(2) by simp
qed

lemma nth_filter_upto_iff:
  assumes "1 \<le> d" "d \<le> M" "i < length (filter P [1..M])"
  shows "d = filter P [1..M] ! i \<longleftrightarrow> P d \<and> length (filter P [1..d]) = Suc i"
proof (cases "P d")
  case True
  let ?ms = "filter P [1..M]"
  let ?a = "filter P [1..d - 1]"
  have split: "?ms = ?a @ d # filter P [d + 1..M]"
    using assms(1,2) True by (rule filter_upto_position)
  have at: "?ms ! length ?a = d"
    by (subst split) simp
  have lt: "length ?a < length ?ms"
    using arg_cong[OF split, of length] by simp
  have dist: "distinct ?ms" by simp
  have "d = ?ms ! i \<longleftrightarrow> ?ms ! length ?a = ?ms ! i" using at by simp
  also have "\<dots> \<longleftrightarrow> length ?a = i"
    using nth_eq_iff_index_eq[OF dist lt assms(3)] .
  also have "\<dots> \<longleftrightarrow> length (filter P [1..d]) = Suc i"
    using filter_upto_prefix_length[of d P, OF assms(1) True] by simp
  finally show ?thesis using True by simp
next
  case False
  have "filter P [1..M] ! i \<in> set (filter P [1..M])"
    using assms(3) by (rule nth_mem)
  then have "P (filter P [1..M] ! i)" by simp
  with False show ?thesis by auto
qed

lemma filter_upto_prefix_le:
  assumes "d \<le> M"
  shows "length (filter P [1..d]) \<le> length (filter P [1..M])"
proof (cases "1 \<le> d")
  case True
  have "[1..M] = [1..d] @ [d + 1..M]"
    using True assms by (rule upto_split2)
  then show ?thesis by simp
next
  case False
  then show ?thesis by simp
qed


lemma java_day_of_week_ymd:
  "java_day_of_week \<lparr>year = y, month = m, day = d\<rparr>
     = (days_before_year y + days_before_month y m + d) mod 7 + 1"
proof -
  have "((x + 6) mod 7 + 1) mod 7 + 1 = x mod 7 + 1" for x :: int
    by presburger
  then show ?thesis
    by (simp add: java_day_of_week_def weekday_def toordinal_def ymd2ord_def)
qed

lemma java_day_of_week_range:
  "1 \<le> java_day_of_week dv" "java_day_of_week dv \<le> 7"
  by (simp_all add: java_day_of_week_def)

lemma weekday_in_first_week:
  assumes "1 \<le> w" "w \<le> 7"
  shows "\<exists>d. 1 \<le> d \<and> d \<le> 7 \<and> (c + d) mod 7 + 1 = (w::int)"
  using assms by presburger

lemma nth_weekday_matches_filter:
  assumes "1 \<le> y" "y \<le> 9999" "1 \<le> m" "m \<le> 12"
    and "\<forall>d\<in>set ds. 1 \<le> d \<and> d \<le> days_in_month y m"
  shows "nth_weekday_matches y m w ds
     = Inr (filter (\<lambda>d. java_day_of_week \<lparr>year = y, month = m, day = d\<rparr> = w) ds)"
  using assms(5)
proof (induction ds)
  case Nil
  show ?case by simp
next
  case (Cons d ds)
  have "py_date y m d = Inr \<lparr>year = y, month = m, day = d\<rparr>"
    using assms(1-4) Cons.prems by (simp add: py_date_def MINYEAR_def MAXYEAR_def)
  moreover have "nth_weekday_matches y m w ds
     = Inr (filter (\<lambda>d. java_day_of_week \<lparr>year = y, month = m, day = d\<rparr> = w) ds)"
    using Cons.IH Cons.prems by simp
  ultimately show ?case by simp
qed

lemma matches_nonempty:
  assumes "1 \<le> m" "m \<le> 12" "1 \<le> w" "w \<le> 7"
  shows "filter (\<lambda>d. java_day_of_week \<lparr>year = y, month = m, day = d\<rparr> = w)
           [1..days_in_month y m] \<noteq> []"
proof -
  obtain d where d: "1 \<le> d" "d \<le> 7"
      "(days_before_year y + days_before_month y m + d) mod 7 + 1 = w"
    using weekday_in_first_week[OF assms(3,4)] by blast
  have "d \<in> set [1..days_in_month y m]"
    using d(1,2) days_in_month_ge_28(1)[OF assms(1,2), of y] by simp
  moreover have "java_day_of_week \<lparr>year = y, month = m, day = d\<rparr> = w"
    using d(3) by (simp add: java_day_of_week_ymd)
  ultimately show ?thesis
    by (auto simp: filter_empty_conv)
qed

lemma matches_empty:
  assumes "\<not> (1 \<le> w \<and> w \<le> 7)"
  shows "filter (\<lambda>d. java_day_of_week \<lparr>year = y, month = m, day = d\<rparr> = w) ds = []"
  using assms java_day_of_week_range by (auto simp: filter_empty_conv)

lemma nth_target_iff:
  assumes ms: "ms = filter P [1..M]" and ne: "ms \<noteq> []"
    and d: "1 \<le> d" "d \<le> M" and k: "k = max 1 nth_week"
  shows "d = (if nth_week \<ge> 5 then last ms
              else let index = max 0 (nth_week - 1)
                   in if index < int (length ms) then ms ! nat index else last ms)
     \<longleftrightarrow> P d \<and> int (length (filter P [1..d]))
                 = (if k \<ge> 5 \<or> int (length ms) < k then int (length ms) else k)"
proof -
  define e where "e = (if k \<ge> 5 \<or> int (length ms) < k then int (length ms) else k)"
  have len: "0 < length ms" using ne by simp
  then have len1: "1 \<le> int (length ms)" by linarith
  have k1: "1 \<le> k" using k by simp
  have e: "1 \<le> e" "e \<le> int (length ms)"
    using len1 k1 by (simp_all add: e_def)
  have last: "last ms = ms ! (length ms - 1)"
    using ne by (rule last_conv_nth)
  have target: "(if nth_week \<ge> 5 then last ms
              else let index = max 0 (nth_week - 1)
                   in if index < int (length ms) then ms ! nat index else last ms)
      = ms ! nat (e - 1)"
  proof (cases "nth_week \<ge> 5")
    case True
    then have "e = int (length ms)" using k by (simp add: e_def)
    then have "nat (e - 1) = length ms - 1" by simp
    with True last show ?thesis by simp
  next
    case False
    have idx: "max 0 (nth_week - 1) = k - 1" using k by simp
    show ?thesis
    proof (cases "k - 1 < int (length ms)")
      case True
      then have "e = k" using False k by (simp add: e_def)
      with True False idx show ?thesis by (simp add: Let_def)
    next
      case nlt: False
      then have "e = int (length ms)" by (simp add: e_def)
      then have "nat (e - 1) = length ms - 1" by simp
      with nlt False idx last show ?thesis by (simp add: Let_def)
    qed
  qed
  have i: "nat (e - 1) < length (filter P [1..M])"
    using e len ms by simp
  have "d = ms ! nat (e - 1) \<longleftrightarrow> P d \<and> length (filter P [1..d]) = Suc (nat (e - 1))"
    unfolding ms using d i by (rule nth_filter_upto_iff)
  also have "\<dots> \<longleftrightarrow> P d \<and> int (length (filter P [1..d])) = e"
    using e(1) by auto
  finally show ?thesis
    unfolding target e_def .
qed

lemma nth_weekday_day_of_month_eq:
  assumes "1 \<le> y" "y \<le> 9999" "1 \<le> m" "m \<le> 12" "\<not> (y = 9999 \<and> m = 12)"
    and ms: "ms = filter (\<lambda>d. java_day_of_week \<lparr>year = y, month = m, day = d\<rparr> = w)
                    [1..days_in_month y m]"
  shows "nth_weekday_day_of_month y m w nth_week
     = Inr (if ms = [] then 1
            else if nth_week \<ge> 5 then last ms
            else let index = max 0 (nth_week - 1)
                 in if index < int (length ms) then ms ! nat index else last ms)"
proof -
  have "nth_weekday_matches y m w [1..days_in_month y m] = Inr ms"
    unfolding ms by (rule nth_weekday_matches_filter[OF assms(1-4)]) simp
  then show ?thesis
    by (simp add: nth_weekday_day_of_month_def month_max_day_eq[OF assms(1-5)])
qed

lemma occurrence_index_eq:
  assumes "java_day_of_week \<lparr>year = y, month = m, day = d\<rparr> = w"
  shows "occurrence_index y m d
     = int (length (filter (\<lambda>d'. java_day_of_week \<lparr>year = y, month = m, day = d'\<rparr> = w) [1..d]))"
  using assms by (simp add: occurrence_index_def)

lemma fifth_monday_spec:
  "occurrence_count 2021 2 2 = 4" "occurrence_index 2021 2 22 = 4"
  "nth_weekday_spec 2021 2 2 5 22" "\<not> nth_weekday_spec 2021 2 2 5 15"
  by code_simp+

lemma feb_22: "py_date 2021 2 22 = Inr \<lparr>year = 2021, month = 2, day = 22\<rparr>"
  by code_simp

text \<open>
  Claim C7, as stated, fails for a configured weekday outside 1..7 (Java's Sunday to
  Saturday), which \<open>from_payload\<close> accepts: no day of the month falls on it, and
  \<open>nth_weekday_day_of_month\<close> then returns 1, so the first of the month matches
  although it is no occurrence of the configured weekday.
\<close>

theorem weekday_out_of_range_counterexample:
  "mode (daily_nag\<lparr>recurring_pattern_type := PATTERN_NTH_WEEKDAY,
                    recurring_day_of_week := Some 8, recurring_nth_week := Some 1\<rparr>) = NAG_MODE_MONTHLY
   \<and> is_recurring_date_match 0
        (daily_nag\<lparr>recurring_pattern_type := PATTERN_NTH_WEEKDAY,
                    recurring_day_of_week := Some 8, recurring_nth_week := Some 1\<rparr>)
        \<lparr>year = 1970, month = 1, day = 1\<rparr> = Inr True
   \<and> java_day_of_week \<lparr>year = 1970, month = 1, day = 1\<rparr> = 5
   \<and> occurrence_count 1970 1 8 = 0
   \<and> \<not> nth_weekday_spec 1970 1 8 1 1"
  by code_simp

text \<open>
  Claim C7, amended.  For every MONTHLY reminder with pattern \<open>NTH_WEEKDAY_OF_MONTH\<close>,
  with \<open>w\<close> the configured weekday (Monday when unset or zero) and \<open>k\<close> the configured
  \<open>N\<close> (1 when unset, zero or negative), and for every valid date outside December 9999
  (where \<open>month_max_day\<close> raises): when \<open>w\<close> is in 1..7, the date matches exactly when its
  day falls on \<open>w\<close> and is the \<open>k\<close>-th occurrence of \<open>w\<close> in its month, or the last
  occurrence when \<open>k \<ge> 5\<close> or the month has fewer than \<open>k\<close>; when \<open>w\<close> is outside 1..7,
  the date matches exactly when it is the first of the month.
\<close>

theorem nth_weekday_match:
  assumes "mode n = NAG_MODE_MONTHLY" "recurring_pattern_type n = PATTERN_NTH_WEEKDAY"
    and "py_date y m d = Inr dv" "\<not> (y = 9999 \<and> m = 12)"
    and "w = or_int (recurring_day_of_week n) JAVA_MONDAY"
    and "k = max 1 (or_int (recurring_nth_week n) 1)"
  shows "is_recurring_date_match tz n dv
     = Inr (if 1 \<le> w \<and> w \<le> 7 then nth_weekday_spec y m w k d else d = 1)"
proof -
  have v: "1 \<le> y" "y \<le> 9999" "1 \<le> m" "m \<le> 12" "1 \<le> d" "d \<le> days_in_month y m"
      and dv: "dv = \<lparr>year = y, month = m, day = d\<rparr>"
    using assms(3) by (simp_all add: py_date_Inr_iff)
  define P where "P = (\<lambda>d'. java_day_of_week \<lparr>year = y, month = m, day = d'\<rparr> = w)"
  define ms where "ms = filter P [1..days_in_month y m]"
  define nth_week where "nth_week = or_int (recurring_nth_week n) 1"
  define target where "target = (if ms = [] then 1
            else if nth_week \<ge> 5 then last ms
            else let index = max 0 (nth_week - 1)
                 in if index < int (length ms) then ms ! nat index else last ms)"
  have t: "nth_weekday_day_of_month y m w nth_week = Inr target"
    unfolding target_def
    by (rule nth_weekday_day_of_month_eq[OF v(1-4) assms(4)]) (simp add: ms_def P_def)
  have pat: "or_str (recurring_pattern_type n) PATTERN_DAY_OF_MONTH = PATTERN_NTH_WEEKDAY"
    by (simp add: assms(2) or_str_def PATTERN_NTH_WEEKDAY_def)
  have ne1: "PATTERN_NTH_WEEKDAY \<noteq> PATTERN_DAY_OF_MONTH"
    and ne2: "PATTERN_NTH_WEEKDAY \<noteq> PATTERN_DAY_OF_WEEK"
    by (simp_all add: PATTERN_NTH_WEEKDAY_def PATTERN_DAY_OF_MONTH_def PATTERN_DAY_OF_WEEK_def)
  have t': "nth_weekday_day_of_month y m (or_int (recurring_day_of_week n) JAVA_MONDAY)
              (or_int (recurring_nth_week n) 1) = Inr target"
    using t by (simp add: assms(5) nth_week_def)
  have m: "is_recurring_date_match tz n dv = Inr (d = target)"
    unfolding is_recurring_date_match_def Let_def pat
    by (simp add: assms(1) dv month_max_day_eq[OF v(1-4) assms(4)] ne1 ne2 t')
  show ?thesis
  proof (cases "1 \<le> w \<and> w \<le> 7")
    case True
    have ne: "ms \<noteq> []"
      unfolding ms_def P_def using v(3,4) True by (simp add: matches_nonempty)
    have "d = target \<longleftrightarrow> P d \<and> int (length (filter P [1..d]))
                 = (if k \<ge> 5 \<or> int (length ms) < k then int (length ms) else k)"
      unfolding target_def if_not_P[OF ne]
      using ms_def ne v(5,6) assms(6)[folded nth_week_def] by (rule nth_target_iff)
    also have "\<dots> \<longleftrightarrow> nth_weekday_spec y m w k d"
      by (auto simp: nth_weekday_spec_def occurrence_count_def occurrence_index_eq P_def ms_def)
    finally show ?thesis using m True by simp
  next
    case False
    have "ms = []" unfolding ms_def P_def using False by (rule matches_empty)
    then have "target = 1" by (simp add: target_def)
    with m have "is_recurring_date_match tz n dv = Inr (d = 1)" by simp
    then show ?thesis unfolding if_not_P[OF False] .
  qed
qed

theorem nth_weekday_match_witness:
  "py_date 2021 2 22 = Inr \<lparr>year = 2021, month = 2, day = 22\<rparr>
   \<and> occurrence_count 2021 2 2 = 4
   \<and> occurrence_index 2021 2 22 = 4
   \<and> nth_weekday_spec 2021 2 2 5 22
   \<and> is_recurring_date_match 0
        (daily_nag\<lparr>recurring_pattern_type := PATTERN_NTH_WEEKDAY,
                    recurring_day_of_week := Some 2, recurring_nth_week := Some 5\<rparr>)
        \<lparr>year = 2021, month = 2, day = 22\<rparr> = Inr True"
proof -
  let ?n = "daily_nag\<lparr>recurring_pattern_type := PATTERN_NTH_WEEKDAY,
                    recurring_day_of_week := Some 2, recurring_nth_week := Some 5\<rparr>"
  have "is_recurring_date_match 0 ?n \<lparr>year = 2021, month = 2, day = 22\<rparr>
      = Inr (if (1::int) \<le> 2 \<and> (2::int) \<le> 7 then nth_weekday_spec 2021 2 2 5 22 else (22::int) = 1)"
    by (rule nth_weekday_match[OF _ _ feb_22])
       (simp_all add: daily_nag_fields or_int_def JAVA_MONDAY_def)
  then show ?thesis
    using fifth_monday_spec feb_22 by simp
qed


end
